theory Spec2Isabelle
  imports Main "HOL-Library.Word"
begin

section \<open>The memory of a program that uses SingleLinkedList\<close>

text \<open>
  single-linked-list.h works on raw \<open>Node*\<close> links, so the model keeps an explicit store.
  A \<open>Node*\<close> is null (\<open>None\<close>) or points to a node: either the sentinel \<open>head_\<close> that
  a list object contains (\<open>Sentinel l\<close>, with \<open>l\<close> the identity of the list object) or a
  node made by \<open>new Node\<close> at a 64-bit address (\<open>Cell a\<close>).
\<close>

type_synonym addr = "64 word"
type_synonym lid = nat

datatype ptr = Sentinel lid | Cell addr

type_synonym node_ptr = "ptr option"

record 'a Node =
  "value" :: 'a
  next_node :: node_ptr

text \<open>
  The list object: \<open>Node head_; size_t size_\<close>. Of the sentinel only \<open>head_.next_node\<close>
  is kept: \<open>head_.value\<close> is default-initialised and no member function reads it.
  The members \<open>size_\<close> and \<open>node_\<close> of the source are \<open>m_size\<close> and \<open>m_node\<close> here
  (a name cannot end in an underscore).
  \<open>size_t\<close> is a 64-bit unsigned integer, so \<open>++size_\<close> and \<open>--size_\<close> wrap around.
\<close>

record SingleLinkedList =
  head_next_node :: node_ptr
  m_size :: "64 word"

type_synonym 'a heap = "addr \<Rightarrow> 'a Node option"

text \<open>
  The store: the list objects that are alive, in the order of their construction (local
  objects are destroyed in the reverse order, so the temporaries of a member function sit
  at the end), and the nodes that \<open>new\<close> has handed out and \<open>delete\<close> has not yet taken back.
\<close>

record 'a store =
  lists :: "SingleLinkedList list"
  nodes :: "'a heap"

text \<open>
  What can go wrong: \<open>new\<close> throws \<open>std::bad_alloc\<close> (the exception leaves the function
  with the store as it is at that moment), or the code reads or writes through a null or
  dangling pointer, which is undefined behaviour.
\<close>

datatype 's error = bad_alloc 's | undefined_behaviour

subsection \<open>Reading and writing through pointers\<close>

definition get_next :: "'a store \<Rightarrow> node_ptr \<Rightarrow> node_ptr option" where
  "get_next st p =
     (case p of
        None \<Rightarrow> None
      | Some (Sentinel l) \<Rightarrow>
          (if l < length (lists st) then Some (head_next_node (lists st ! l)) else None)
      | Some (Cell a) \<Rightarrow> map_option next_node (nodes st a))"

definition set_next :: "'a store \<Rightarrow> node_ptr \<Rightarrow> node_ptr \<Rightarrow> 'a store option" where
  "set_next st p q =
     (case p of
        None \<Rightarrow> None
      | Some (Sentinel l) \<Rightarrow>
          (if l < length (lists st)
           then Some (st\<lparr>lists := (lists st)[l := (lists st ! l)\<lparr>head_next_node := q\<rparr>]\<rparr>)
           else None)
      | Some (Cell a) \<Rightarrow>
          (case nodes st a of
             None \<Rightarrow> None
           | Some n \<Rightarrow> Some (st\<lparr>nodes := (nodes st)(a \<mapsto> n\<lparr>next_node := q\<rparr>)\<rparr>)))"

definition get_value :: "'a store \<Rightarrow> node_ptr \<Rightarrow> 'a option" where
  "get_value st p =
     (case p of
        None \<Rightarrow> None
      | Some (Sentinel l) \<Rightarrow> None
      | Some (Cell a) \<Rightarrow> map_option value (nodes st a))"

definition get_size :: "'a store \<Rightarrow> lid \<Rightarrow> 64 word option" where
  "get_size st l = (if l < length (lists st) then Some (m_size (lists st ! l)) else None)"

definition set_size :: "'a store \<Rightarrow> lid \<Rightarrow> 64 word \<Rightarrow> 'a store option" where
  "set_size st l n =
     (if l < length (lists st)
      then Some (st\<lparr>lists := (lists st)[l := (lists st ! l)\<lparr>m_size := n\<rparr>]\<rparr>)
      else None)"

text \<open>
  \<open>new Node(val, next)\<close>. The allocator \<open>alloc\<close> is a parameter: it looks at the heap and
  answers with an address or with nothing. \<open>operator new\<close> never hands out the null
  address or storage that is in use, so a request that \<open>alloc\<close> does not answer with a
  free non-null address fails with \<open>std::bad_alloc\<close>.
\<close>

definition new_Node ::
  "('a heap \<Rightarrow> addr option) \<Rightarrow> 'a store \<Rightarrow> 'a \<Rightarrow> node_ptr \<Rightarrow> 'a store error + node_ptr \<times> 'a store"
where
  "new_Node alloc st val nxt =
     (case alloc (nodes st) of
        None \<Rightarrow> Inl (bad_alloc st)
      | Some a \<Rightarrow>
          (if a = 0 \<or> nodes st a \<noteq> None then Inl (bad_alloc st)
           else Inr (Some (Cell a),
                     st\<lparr>nodes := (nodes st)(a \<mapsto> \<lparr>value = val, next_node = nxt\<rparr>)\<rparr>)))"

text \<open>\<open>delete p\<close> for a pointer to a node made by \<open>new\<close>; anything else is undefined.\<close>

definition delete_Node :: "'a store \<Rightarrow> node_ptr \<Rightarrow> 'a store option" where
  "delete_Node st p =
     (case p of
        Some (Cell a) \<Rightarrow>
          (if nodes st a = None then None else Some (st\<lparr>nodes := (nodes st)(a := None)\<rparr>))
      | _ \<Rightarrow> None)"

section \<open>BasicIterator\<close>

datatype BasicIterator = BasicIterator (m_node: node_ptr)

definition it_eq :: "BasicIterator \<Rightarrow> BasicIterator \<Rightarrow> bool" where
  "it_eq lhs rhs = (m_node lhs = m_node rhs)"

definition it_ne :: "BasicIterator \<Rightarrow> BasicIterator \<Rightarrow> bool" where
  "it_ne lhs rhs = (m_node lhs \<noteq> m_node rhs)"

text \<open>\<open>operator++()\<close>: \<open>node_ = node_->next_node\<close>; the result is the advanced iterator.\<close>

definition it_pre_inc :: "'a store \<Rightarrow> BasicIterator \<Rightarrow> BasicIterator option" where
  "it_pre_inc st it = map_option BasicIterator (get_next st (m_node it))"

text \<open>\<open>operator++(int)\<close>: the old value and the advanced iterator.\<close>

definition it_post_inc :: "'a store \<Rightarrow> BasicIterator \<Rightarrow> (BasicIterator \<times> BasicIterator) option" where
  "it_post_inc st it =
     (let old_value = it in
      case it_pre_inc st it of None \<Rightarrow> None | Some it' \<Rightarrow> Some (old_value, it'))"

text \<open>\<open>operator*()\<close>: \<open>node_->value\<close>.\<close>

definition it_deref :: "'a store \<Rightarrow> BasicIterator \<Rightarrow> 'a option" where
  "it_deref st it = get_value st (m_node it)"

text \<open>
  \<open>operator->()\<close>: \<open>(node_ != nullptr) ? &node_->value : nullptr\<close>. A pointer to a value
  is null or the address of the \<open>value\<close> member of a node.
\<close>

datatype value_ptr = ValueOf ptr

definition it_arrow :: "BasicIterator \<Rightarrow> value_ptr option" where
  "it_arrow it = (if m_node it \<noteq> None then Some (ValueOf (the (m_node it))) else None)"

definition load_value :: "'a store \<Rightarrow> value_ptr option \<Rightarrow> 'a option" where
  "load_value st vp = (case vp of None \<Rightarrow> None | Some (ValueOf p) \<Rightarrow> get_value st (Some p))"

section \<open>SingleLinkedList\<close>

subsection \<open>Objects coming to life and going away\<close>

text \<open>
  Storage for a new list object with the default member initialisers
  (\<open>next_node = nullptr\<close>, \<open>size_ = 0u\<close>); the default constructor does nothing more.
\<close>

definition default_ctor :: "'a store \<Rightarrow> lid \<times> 'a store" where
  "default_ctor st =
     (length (lists st), st\<lparr>lists := lists st @ [\<lparr>head_next_node = None, m_size = 0\<rparr>]\<rparr>)"

text \<open>The storage of the youngest object is released.\<close>

definition release :: "'a store \<Rightarrow> 'a store" where
  "release st = st\<lparr>lists := butlast (lists st)\<rparr>"

subsection \<open>swap\<close>

text \<open>
  \<open>std::swap(a, b)\<close> is \<open>t = a; a = b; b = t\<close>; the three steps are kept apart, so that
  \<open>this\<close> and \<open>other\<close> may be the same object.
\<close>

definition swap :: "'a store \<Rightarrow> lid \<Rightarrow> lid \<Rightarrow> ('a store error + unit \<times> 'a store)" where
  "swap st this other =
     (case get_next st (Some (Sentinel this)) of
        None \<Rightarrow> Inl undefined_behaviour
      | Some t \<Rightarrow>
     (case get_next st (Some (Sentinel other)) of
        None \<Rightarrow> Inl undefined_behaviour
      | Some b \<Rightarrow>
     (case set_next st (Some (Sentinel this)) b of
        None \<Rightarrow> Inl undefined_behaviour
      | Some st1 \<Rightarrow>
     (case set_next st1 (Some (Sentinel other)) t of
        None \<Rightarrow> Inl undefined_behaviour
      | Some st2 \<Rightarrow>
     (case get_size st2 this of
        None \<Rightarrow> Inl undefined_behaviour
      | Some ts \<Rightarrow>
     (case get_size st2 other of
        None \<Rightarrow> Inl undefined_behaviour
      | Some bs \<Rightarrow>
     (case set_size st2 this bs of
        None \<Rightarrow> Inl undefined_behaviour
      | Some st3 \<Rightarrow>
     (case set_size st3 other ts of
        None \<Rightarrow> Inl undefined_behaviour
      | Some st4 \<Rightarrow> Inr ((), st4)))))))))"

text \<open>The free function \<open>swap(lhs, rhs)\<close>: \<open>lhs.swap(rhs)\<close>.\<close>

definition swap_free :: "'a store \<Rightarrow> lid \<Rightarrow> lid \<Rightarrow> ('a store error + unit \<times> 'a store)" where
  "swap_free st lhs rhs = swap st lhs rhs"

subsection \<open>Size and iterators\<close>

definition GetSize :: "'a store \<Rightarrow> lid \<Rightarrow> 64 word option" where
  "GetSize st this = get_size st this"

definition IsEmpty :: "'a store \<Rightarrow> lid \<Rightarrow> bool option" where
  "IsEmpty st this = map_option (\<lambda>n. n = 0) (get_size st this)"

text \<open>\<open>begin()\<close>, \<open>end()\<close> and \<open>before_begin()\<close>, with their const forms, which do the same.\<close>

definition begin_it :: "'a store \<Rightarrow> lid \<Rightarrow> BasicIterator option" where
  "begin_it st this = map_option BasicIterator (get_next st (Some (Sentinel this)))"

definition end_it :: "BasicIterator" where
  "end_it = BasicIterator None"

definition before_begin :: "lid \<Rightarrow> BasicIterator" where
  "before_begin this = BasicIterator (Some (Sentinel this))"

subsection \<open>Insertion and removal\<close>

text \<open>\<open>++size_\<close> and \<open>--size_\<close> on the list object \<open>this\<close>.\<close>

definition inc_size :: "'a store \<Rightarrow> lid \<Rightarrow> 'a store option" where
  "inc_size st this =
     (case get_size st this of None \<Rightarrow> None | Some n \<Rightarrow> set_size st this (n + 1))"

definition dec_size :: "'a store \<Rightarrow> lid \<Rightarrow> 'a store option" where
  "dec_size st this =
     (case get_size st this of None \<Rightarrow> None | Some n \<Rightarrow> set_size st this (n - 1))"

text \<open>\<open>head_.next_node = new Node(value, head_.next_node); ++size_;\<close>\<close>

definition PushFront ::
  "('a heap \<Rightarrow> addr option) \<Rightarrow> 'a store \<Rightarrow> lid \<Rightarrow> 'a \<Rightarrow> 'a store error + unit \<times> 'a store"
where
  "PushFront alloc st this val =
     (case get_next st (Some (Sentinel this)) of
        None \<Rightarrow> Inl undefined_behaviour
      | Some first \<Rightarrow>
     (case new_Node alloc st val first of
        Inl e \<Rightarrow> Inl e
      | Inr (p, st1) \<Rightarrow>
     (case set_next st1 (Some (Sentinel this)) p of
        None \<Rightarrow> Inl undefined_behaviour
      | Some st2 \<Rightarrow>
     (case inc_size st2 this of
        None \<Rightarrow> Inl undefined_behaviour
      | Some st3 \<Rightarrow> Inr ((), st3)))))"

text \<open>
  \<open>Node* new_node = new Node(value, pos.node_->next_node);
  pos.node_->next_node = new_node; ++size_;
  return Iterator{pos.node_->next_node};\<close>
\<close>

definition InsertAfter ::
  "('a heap \<Rightarrow> addr option) \<Rightarrow> 'a store \<Rightarrow> lid \<Rightarrow> BasicIterator \<Rightarrow> 'a \<Rightarrow>
     'a store error + BasicIterator \<times> 'a store"
where
  "InsertAfter alloc st this pos val =
     (case get_next st (m_node pos) of
        None \<Rightarrow> Inl undefined_behaviour
      | Some nxt \<Rightarrow>
     (case new_Node alloc st val nxt of
        Inl e \<Rightarrow> Inl e
      | Inr (new_node, st1) \<Rightarrow>
     (case set_next st1 (m_node pos) new_node of
        None \<Rightarrow> Inl undefined_behaviour
      | Some st2 \<Rightarrow>
     (case inc_size st2 this of
        None \<Rightarrow> Inl undefined_behaviour
      | Some st3 \<Rightarrow>
     (case get_next st3 (m_node pos) of
        None \<Rightarrow> Inl undefined_behaviour
      | Some r \<Rightarrow> Inr (BasicIterator r, st3))))))"

text \<open>
  \<open>Node* tmp = head_.next_node->next_node; delete head_.next_node;
  head_.next_node = tmp; --size_;\<close>
\<close>

definition PopFront :: "'a store \<Rightarrow> lid \<Rightarrow> 'a store error + unit \<times> 'a store" where
  "PopFront st this =
     (case get_next st (Some (Sentinel this)) of
        None \<Rightarrow> Inl undefined_behaviour
      | Some first \<Rightarrow>
     (case get_next st first of
        None \<Rightarrow> Inl undefined_behaviour
      | Some tmp \<Rightarrow>
     (case delete_Node st first of
        None \<Rightarrow> Inl undefined_behaviour
      | Some st1 \<Rightarrow>
     (case set_next st1 (Some (Sentinel this)) tmp of
        None \<Rightarrow> Inl undefined_behaviour
      | Some st2 \<Rightarrow>
     (case dec_size st2 this of
        None \<Rightarrow> Inl undefined_behaviour
      | Some st3 \<Rightarrow> Inr ((), st3))))))"

text \<open>
  \<open>Node* tmp = pos.node_->next_node->next_node; delete pos.node_->next_node;
  pos.node_->next_node = tmp; --size_; return Iterator{pos.node_->next_node};\<close>
\<close>

definition EraseAfter ::
  "'a store \<Rightarrow> lid \<Rightarrow> BasicIterator \<Rightarrow> 'a store error + BasicIterator \<times> 'a store"
where
  "EraseAfter st this pos =
     (case get_next st (m_node pos) of
        None \<Rightarrow> Inl undefined_behaviour
      | Some victim \<Rightarrow>
     (case get_next st victim of
        None \<Rightarrow> Inl undefined_behaviour
      | Some tmp \<Rightarrow>
     (case delete_Node st victim of
        None \<Rightarrow> Inl undefined_behaviour
      | Some st1 \<Rightarrow>
     (case set_next st1 (m_node pos) tmp of
        None \<Rightarrow> Inl undefined_behaviour
      | Some st2 \<Rightarrow>
     (case dec_size st2 this of
        None \<Rightarrow> Inl undefined_behaviour
      | Some st3 \<Rightarrow>
     (case get_next st3 (m_node pos) of
        None \<Rightarrow> Inl undefined_behaviour
      | Some r \<Rightarrow> Inr (BasicIterator r, st3)))))))"

text \<open>
  \<open>Clear()\<close>: the loop \<open>while (head_.next_node != nullptr)\<close> deletes the first node and
  links the sentinel to its successor; after the loop \<open>size_ = 0u\<close>. On a chain that
  never reaches null the loop does not end: the result is \<open>None\<close>.
\<close>

partial_function (option) Clear_loop ::
  "lid \<Rightarrow> 'a store \<Rightarrow> ('a store error + unit \<times> 'a store) option"
where
  "Clear_loop this st =
     (case get_next st (Some (Sentinel this)) of
        None \<Rightarrow> Some (Inl undefined_behaviour)
      | Some None \<Rightarrow> Some (Inr ((), st))
      | Some (Some first) \<Rightarrow>
     (case get_next st (Some first) of
        None \<Rightarrow> Some (Inl undefined_behaviour)
      | Some new_head \<Rightarrow>
     (case delete_Node st (Some first) of
        None \<Rightarrow> Some (Inl undefined_behaviour)
      | Some st1 \<Rightarrow>
     (case set_next st1 (Some (Sentinel this)) new_head of
        None \<Rightarrow> Some (Inl undefined_behaviour)
      | Some st2 \<Rightarrow> Clear_loop this st2))))"

definition Clear :: "'a store \<Rightarrow> lid \<Rightarrow> ('a store error + unit \<times> 'a store) option" where
  "Clear st this =
     (case Clear_loop this st of
        None \<Rightarrow> None
      | Some (Inl e) \<Rightarrow> Some (Inl e)
      | Some (Inr (u, st1)) \<Rightarrow>
          (case set_size st1 this 0 of
             None \<Rightarrow> Some (Inl undefined_behaviour)
           | Some st2 \<Rightarrow> Some (Inr ((), st2))))"

text \<open>
  The destructor \<open>~SingleLinkedList()\<close> calls \<open>Clear()\<close>. A local list object that goes
  out of scope is destroyed and its storage released.
\<close>

definition dtor :: "'a store \<Rightarrow> lid \<Rightarrow> ('a store error + unit \<times> 'a store) option" where
  "dtor st this = Clear st this"

definition leave_scope :: "'a store \<Rightarrow> lid \<Rightarrow> ('a store error + unit \<times> 'a store) option" where
  "leave_scope st tmp =
     (case dtor st tmp of
        None \<Rightarrow> None
      | Some (Inl e) \<Rightarrow> Some (Inl e)
      | Some (Inr (u, st1)) \<Rightarrow> Some (Inr ((), release st1)))"

subsection \<open>Init and the constructors\<close>

text \<open>
  \<open>Init(range_begin, range_end)\<close> is a template over the iterator type of the range:
  \<open>star\<close> and \<open>inc\<close> are that type's \<open>operator*\<close> and \<open>operator++\<close> (\<open>None\<close>: undefined
  behaviour), and \<open>it != range_end\<close> compares two of its values.
  The loop body is \<open>++size_; node->next_node = new Node(*it, nullptr);
  node = node->next_node;\<close>, then \<open>++it\<close>.
\<close>

partial_function (option) Init_loop ::
  "('a store \<Rightarrow> 'it \<Rightarrow> 'a option) \<Rightarrow> ('a store \<Rightarrow> 'it \<Rightarrow> 'it option) \<Rightarrow>
   ('a heap \<Rightarrow> addr option) \<Rightarrow> lid \<Rightarrow> 'it \<Rightarrow> 'a store \<Rightarrow> node_ptr \<Rightarrow> 'it \<Rightarrow>
   ('a store error + unit \<times> 'a store) option"
where
  "Init_loop star inc alloc this range_end st node it =
     (if it = range_end then Some (Inr ((), st))
      else
     (case inc_size st this of
        None \<Rightarrow> Some (Inl undefined_behaviour)
      | Some st1 \<Rightarrow>
     (case star st1 it of
        None \<Rightarrow> Some (Inl undefined_behaviour)
      | Some val \<Rightarrow>
     (case new_Node alloc st1 val None of
        Inl e \<Rightarrow> Some (Inl e)
      | Inr (p, st2) \<Rightarrow>
     (case set_next st2 node p of
        None \<Rightarrow> Some (Inl undefined_behaviour)
      | Some st3 \<Rightarrow>
     (case get_next st3 node of
        None \<Rightarrow> Some (Inl undefined_behaviour)
      | Some node' \<Rightarrow>
     (case inc st3 it of
        None \<Rightarrow> Some (Inl undefined_behaviour)
      | Some it' \<Rightarrow> Init_loop star inc alloc this range_end st3 node' it')))))))"

definition Init ::
  "('a store \<Rightarrow> 'it \<Rightarrow> 'a option) \<Rightarrow> ('a store \<Rightarrow> 'it \<Rightarrow> 'it option) \<Rightarrow>
   ('a heap \<Rightarrow> addr option) \<Rightarrow> 'a store \<Rightarrow> lid \<Rightarrow> 'it \<Rightarrow> 'it \<Rightarrow>
   ('a store error + unit \<times> 'a store) option"
where
  "Init star inc alloc st this range_begin range_end =
     Init_loop star inc alloc this range_end st (Some (Sentinel this)) range_begin"

text \<open>
  The iterators of a \<open>std::initializer_list<Type>\<close> are pointers into its array: the
  array is the list \<open>values\<close> and a pointer into it is an index; \<open>values.begin()\<close> is
  index 0 and \<open>values.end()\<close> is index \<open>length values\<close>, which must not be read.
\<close>

definition array_deref :: "'a list \<Rightarrow> 'a store \<Rightarrow> nat \<Rightarrow> 'a option" where
  "array_deref values st i = (if i < length values then Some (values ! i) else None)"

definition array_inc :: "'a list \<Rightarrow> 'a store \<Rightarrow> nat \<Rightarrow> nat option" where
  "array_inc values st i = (if i < length values then Some (Suc i) else None)"

text \<open>
  A constructor that throws leaves no object behind: the locals are destroyed
  (\<open>tmp\<close>, by its destructor) and the storage of the object under construction is
  released.
\<close>

definition unwind_ctor :: "'a store error \<Rightarrow> lid \<Rightarrow> ('a store error + 'r \<times> 'a store) option" where
  "unwind_ctor e tmp =
     (case e of
        undefined_behaviour \<Rightarrow> Some (Inl undefined_behaviour)
      | bad_alloc st \<Rightarrow>
          (case leave_scope st tmp of
             None \<Rightarrow> None
           | Some (Inl e') \<Rightarrow> Some (Inl undefined_behaviour)
           | Some (Inr (u, st1)) \<Rightarrow> Some (Inl (bad_alloc (release st1)))))"

text \<open>
  The body shared by the two constructors, after \<open>SingleLinkedList tmp;
  tmp.Init(...)\<close>: \<open>swap(tmp)\<close>, and \<open>tmp\<close> goes out of scope.
\<close>

definition finish_ctor ::
  "('a store error + unit \<times> 'a store) option \<Rightarrow> lid \<Rightarrow> lid \<Rightarrow>
   ('a store error + lid \<times> 'a store) option"
where
  "finish_ctor r this tmp =
     (case r of
        None \<Rightarrow> None
      | Some (Inl e) \<Rightarrow> unwind_ctor e tmp
      | Some (Inr (u, st2)) \<Rightarrow>
     (case swap st2 this tmp of
        Inl e \<Rightarrow> Some (Inl e)
      | Inr (u, st3) \<Rightarrow>
     (case leave_scope st3 tmp of
        None \<Rightarrow> None
      | Some (Inl e) \<Rightarrow> Some (Inl e)
      | Some (Inr (u, st4)) \<Rightarrow> Some (Inr (this, st4)))))"

text \<open>
  \<open>SingleLinkedList(std::initializer_list<Type> values)\<close>:
  \<open>SingleLinkedList tmp; tmp.Init(values.begin(), values.end()); swap(tmp);\<close>
  The result is the identity of the new list object.
\<close>

definition ctor_initializer_list ::
  "('a heap \<Rightarrow> addr option) \<Rightarrow> 'a store \<Rightarrow> 'a list \<Rightarrow> ('a store error + lid \<times> 'a store) option"
where
  "ctor_initializer_list alloc st values =
     (case default_ctor st of (this, st0) \<Rightarrow>
     (case default_ctor st0 of (tmp, st1) \<Rightarrow>
        finish_ctor
          (Init (array_deref values) (array_inc values) alloc st1 tmp 0 (length values))
          this tmp))"

text \<open>
  \<open>SingleLinkedList(const SingleLinkedList& other)\<close>:
  \<open>SingleLinkedList tmp; tmp.Init(other.begin(), other.end()); swap(tmp);\<close>
\<close>

definition ctor_copy ::
  "('a heap \<Rightarrow> addr option) \<Rightarrow> 'a store \<Rightarrow> lid \<Rightarrow> ('a store error + lid \<times> 'a store) option"
where
  "ctor_copy alloc st other =
     (case default_ctor st of (this, st0) \<Rightarrow>
     (case default_ctor st0 of (tmp, st1) \<Rightarrow>
     (case begin_it st1 other of
        None \<Rightarrow> Some (Inl undefined_behaviour)
      | Some b \<Rightarrow>
          finish_ctor (Init it_deref it_pre_inc alloc st1 tmp b end_it) this tmp)))"

text \<open>
  \<open>operator=(const SingleLinkedList& rhs)\<close>:
  \<open>if (this != &rhs) { SingleLinkedList tmp(rhs); swap(tmp); } return *this;\<close>
\<close>

definition copy_assign ::
  "('a heap \<Rightarrow> addr option) \<Rightarrow> 'a store \<Rightarrow> lid \<Rightarrow> lid \<Rightarrow> ('a store error + lid \<times> 'a store) option"
where
  "copy_assign alloc st this rhs =
     (if this \<noteq> rhs then
        (case ctor_copy alloc st rhs of
           None \<Rightarrow> None
         | Some (Inl e) \<Rightarrow> Some (Inl e)
         | Some (Inr (tmp, st1)) \<Rightarrow>
        (case swap st1 this tmp of
           Inl e \<Rightarrow> Some (Inl e)
         | Inr (u, st2) \<Rightarrow>
        (case leave_scope st2 tmp of
           None \<Rightarrow> None
         | Some (Inl e) \<Rightarrow> Some (Inl e)
         | Some (Inr (u, st3)) \<Rightarrow> Some (Inr (this, st3)))))
      else Some (Inr (this, st)))"

section \<open>Comparing two lists\<close>

text \<open>
  \<open>std::equal(first1, last1, first2, last2)\<close> of the standard library on forward
  iterators, with \<open>eq\<close> the \<open>operator==\<close> of the element type:
  \<open>for (; first1 != last1 && first2 != last2; ++first1, ++first2)
     if (!(*first1 == *first2)) return false;
   return first1 == last1 && first2 == last2;\<close>
\<close>

partial_function (option) std_equal ::
  "('a \<Rightarrow> 'a \<Rightarrow> bool) \<Rightarrow> 'a store \<Rightarrow> BasicIterator \<Rightarrow> BasicIterator \<Rightarrow>
   BasicIterator \<Rightarrow> BasicIterator \<Rightarrow> ('a store error + bool) option"
where
  "std_equal eq st first1 last1 first2 last2 =
     (if it_ne first1 last1 \<and> it_ne first2 last2 then
        (case it_deref st first1 of
           None \<Rightarrow> Some (Inl undefined_behaviour)
         | Some x \<Rightarrow>
        (case it_deref st first2 of
           None \<Rightarrow> Some (Inl undefined_behaviour)
         | Some y \<Rightarrow>
            if \<not> eq x y then Some (Inr False)
            else
        (case it_pre_inc st first1 of
           None \<Rightarrow> Some (Inl undefined_behaviour)
         | Some next1 \<Rightarrow>
        (case it_pre_inc st first2 of
           None \<Rightarrow> Some (Inl undefined_behaviour)
         | Some next2 \<Rightarrow> std_equal eq st next1 last1 next2 last2))))
      else Some (Inr (it_eq first1 last1 \<and> it_eq first2 last2)))"

text \<open>
  \<open>std::lexicographical_compare(first1, last1, first2, last2)\<close> of the standard library,
  with \<open>lt\<close> the \<open>operator<\<close> of the element type:
  \<open>for (; first1 != last1 && first2 != last2; ++first1, ++first2) {
     if (*first1 < *first2) return true;
     if (*first2 < *first1) return false; }
   return first1 == last1 && first2 != last2;\<close>
\<close>

partial_function (option) std_lexicographical_compare ::
  "('a \<Rightarrow> 'a \<Rightarrow> bool) \<Rightarrow> 'a store \<Rightarrow> BasicIterator \<Rightarrow> BasicIterator \<Rightarrow>
   BasicIterator \<Rightarrow> BasicIterator \<Rightarrow> ('a store error + bool) option"
where
  "std_lexicographical_compare lt st first1 last1 first2 last2 =
     (if it_ne first1 last1 \<and> it_ne first2 last2 then
        (case it_deref st first1 of
           None \<Rightarrow> Some (Inl undefined_behaviour)
         | Some x \<Rightarrow>
        (case it_deref st first2 of
           None \<Rightarrow> Some (Inl undefined_behaviour)
         | Some y \<Rightarrow>
            if lt x y then Some (Inr True)
            else if lt y x then Some (Inr False)
            else
        (case it_pre_inc st first1 of
           None \<Rightarrow> Some (Inl undefined_behaviour)
         | Some next1 \<Rightarrow>
        (case it_pre_inc st first2 of
           None \<Rightarrow> Some (Inl undefined_behaviour)
         | Some next2 \<Rightarrow> std_lexicographical_compare lt st next1 last1 next2 last2))))
      else Some (Inr (it_eq first1 last1 \<and> it_ne first2 last2)))"

text \<open>The six relational operators of the header.\<close>

definition operator_eq ::
  "('a \<Rightarrow> 'a \<Rightarrow> bool) \<Rightarrow> 'a store \<Rightarrow> lid \<Rightarrow> lid \<Rightarrow> ('a store error + bool) option"
where
  "operator_eq eq st lhs rhs =
     (case begin_it st lhs of
        None \<Rightarrow> Some (Inl undefined_behaviour)
      | Some b1 \<Rightarrow>
     (case begin_it st rhs of
        None \<Rightarrow> Some (Inl undefined_behaviour)
      | Some b2 \<Rightarrow> std_equal eq st b1 end_it b2 end_it))"

definition negate :: "('a store error + bool) option \<Rightarrow> ('a store error + bool) option" where
  "negate r = (case r of None \<Rightarrow> None | Some (Inl e) \<Rightarrow> Some (Inl e) | Some (Inr b) \<Rightarrow> Some (Inr (\<not> b)))"

definition operator_ne ::
  "('a \<Rightarrow> 'a \<Rightarrow> bool) \<Rightarrow> 'a store \<Rightarrow> lid \<Rightarrow> lid \<Rightarrow> ('a store error + bool) option"
where
  "operator_ne eq st lhs rhs = negate (operator_eq eq st lhs rhs)"

definition operator_lt ::
  "('a \<Rightarrow> 'a \<Rightarrow> bool) \<Rightarrow> 'a store \<Rightarrow> lid \<Rightarrow> lid \<Rightarrow> ('a store error + bool) option"
where
  "operator_lt lt st lhs rhs =
     (case begin_it st lhs of
        None \<Rightarrow> Some (Inl undefined_behaviour)
      | Some b1 \<Rightarrow>
     (case begin_it st rhs of
        None \<Rightarrow> Some (Inl undefined_behaviour)
      | Some b2 \<Rightarrow> std_lexicographical_compare lt st b1 end_it b2 end_it))"

definition operator_le ::
  "('a \<Rightarrow> 'a \<Rightarrow> bool) \<Rightarrow> 'a store \<Rightarrow> lid \<Rightarrow> lid \<Rightarrow> ('a store error + bool) option"
where
  "operator_le lt st lhs rhs = negate (operator_lt lt st rhs lhs)"

definition operator_gt ::
  "('a \<Rightarrow> 'a \<Rightarrow> bool) \<Rightarrow> 'a store \<Rightarrow> lid \<Rightarrow> lid \<Rightarrow> ('a store error + bool) option"
where
  "operator_gt lt st lhs rhs = operator_lt lt st rhs lhs"

definition operator_ge ::
  "('a \<Rightarrow> 'a \<Rightarrow> bool) \<Rightarrow> 'a store \<Rightarrow> lid \<Rightarrow> lid \<Rightarrow> ('a store error + bool) option"
where
  "operator_ge lt st lhs rhs = negate (operator_lt lt st lhs rhs)"

section \<open>Walking a list\<close>

text \<open>
  The loop of a caller that reads a list:
  \<open>for (auto it = first; it != last_it; ++it) out.push_back(*it);\<close>
\<close>

partial_function (option) collect ::
  "'a store \<Rightarrow> BasicIterator \<Rightarrow> BasicIterator \<Rightarrow> 'a list \<Rightarrow> ('a store error + 'a list) option"
where
  "collect st it last_it out =
     (if it_ne it last_it then
        (case it_deref st it of
           None \<Rightarrow> Some (Inl undefined_behaviour)
         | Some x \<Rightarrow>
        (case it_pre_inc st it of
           None \<Rightarrow> Some (Inl undefined_behaviour)
         | Some it' \<Rightarrow> collect st it' last_it (out @ [x])))
      else Some (Inr out))"

definition iterate :: "'a store \<Rightarrow> lid \<Rightarrow> ('a store error + 'a list) option" where
  "iterate st this =
     (case begin_it st this of
        None \<Rightarrow> Some (Inl undefined_behaviour)
      | Some b \<Rightarrow> collect st b end_it [])"

section \<open>Describing a store\<close>

text \<open>
  \<open>path h p as q\<close>: in the heap \<open>h\<close>, following \<open>next_node\<close> from \<open>p\<close> visits the
  nodes at the addresses \<open>as\<close>, in this order, and arrives at \<open>q\<close>. A chain is a path
  that ends at null: the nodes of a list, from \<open>head_.next_node\<close> on.
\<close>

primrec path :: "'a heap \<Rightarrow> node_ptr \<Rightarrow> addr list \<Rightarrow> node_ptr \<Rightarrow> bool" where
  "path h p [] q = (p = q)"
| "path h p (a # as) q =
     (p = Some (Cell a) \<and> (case h a of None \<Rightarrow> False | Some n \<Rightarrow> path h (next_node n) as q))"

definition chain :: "'a heap \<Rightarrow> node_ptr \<Rightarrow> addr list \<Rightarrow> bool" where
  "chain h p as = path h p as None"

text \<open>The values held by the nodes at the addresses \<open>as\<close>.\<close>

definition vals :: "'a heap \<Rightarrow> addr list \<Rightarrow> 'a list" where
  "vals h as = map (\<lambda>a. value (the (h a))) as"

text \<open>A default-constructed iterator: \<open>Node* node_ = nullptr\<close>.\<close>

definition default_it :: BasicIterator where
  "default_it = BasicIterator None"

text \<open>
  \<open>serves alloc h\<close>: asked on the heap \<open>h\<close>, the allocator answers with a free non-null
  address, so that \<open>new Node\<close> succeeds there; otherwise \<open>new\<close> throws.
\<close>

definition serves :: "('a heap \<Rightarrow> addr option) \<Rightarrow> 'a heap \<Rightarrow> bool" where
  "serves alloc h = (case alloc h of None \<Rightarrow> False | Some a \<Rightarrow> a \<noteq> 0 \<and> h a = None)"

subsection \<open>Examples\<close>

text \<open>An allocator with a finite pool: the first address of the pool that is free.\<close>

definition first_free :: "addr list \<Rightarrow> 'a heap \<Rightarrow> addr option" where
  "first_free pool h = find (\<lambda>a. h a = None) pool"

text \<open>A store with the lists \<open>{10, 20}\<close> and \<open>{30}\<close>.\<close>

definition ex_store :: "int store" where
  "ex_store =
     \<lparr>lists = [\<lparr>head_next_node = Some (Cell 1), m_size = 2\<rparr>,
               \<lparr>head_next_node = Some (Cell 3), m_size = 1\<rparr>],
      nodes = [1 \<mapsto> \<lparr>value = 10, next_node = Some (Cell 2)\<rparr>,
               2 \<mapsto> \<lparr>value = 20, next_node = None\<rparr>,
               3 \<mapsto> \<lparr>value = 30, next_node = None\<rparr>]\<rparr>"

text \<open>
  An element type whose \<open>operator==\<close> is not reflexive: \<open>double\<close>, where a NaN compares
  unequal to everything, itself included. Of the other values of a \<open>double\<close> the whole
  numbers are enough here. \<open>ieee_eq\<close> is the built-in \<open>==\<close> on them.
\<close>

datatype double = NaN | Num int

definition ieee_eq :: "double \<Rightarrow> double \<Rightarrow> bool" where
  "ieee_eq x y = (case x of NaN \<Rightarrow> False | Num a \<Rightarrow> (case y of NaN \<Rightarrow> False | Num b \<Rightarrow> a = b))"

text \<open>The store of a program that has made the list \<open>{NaN}\<close>.\<close>

definition nan_store :: "double store" where
  "nan_store =
     \<lparr>lists = [\<lparr>head_next_node = Some (Cell 1), m_size = 1\<rparr>],
      nodes = [1 \<mapsto> \<lparr>value = NaN, next_node = None\<rparr>]\<rparr>"

text \<open>
  For the proofs about \<open>Init\<close>: the stores that hold, at the addresses \<open>F\<close>, the nodes
  of the heap \<open>h\<close>; and \<open>range_of star inc S it e xs\<close>, which says that in every store of
  \<open>S\<close> the iterator range from \<open>it\<close> to \<open>e\<close> denotes the values \<open>xs\<close>.
\<close>

definition agree :: "addr set \<Rightarrow> 'a heap \<Rightarrow> 'a store set" where
  "agree F h = {s. \<forall>a\<in>F. nodes s a = h a}"

primrec range_of ::
  "('a store \<Rightarrow> 'it \<Rightarrow> 'a option) \<Rightarrow> ('a store \<Rightarrow> 'it \<Rightarrow> 'it option) \<Rightarrow> 'a store set \<Rightarrow>
   'it \<Rightarrow> 'it \<Rightarrow> 'a list \<Rightarrow> bool"
where
  "range_of star inc S it e [] = (it = e)"
| "range_of star inc S it e (x # xs) =
     (it \<noteq> e \<and> (\<exists>it'. (\<forall>s\<in>S. star s it = Some x \<and> inc s it = Some it') \<and> range_of star inc S it' e xs))"

text \<open>
  \<open>grown this st node st' as\<close>: \<open>st'\<close> is \<open>st\<close> with a chain of new nodes \<open>as\<close> hanging
  from \<open>node\<close>; nothing else has changed but the size of the list \<open>this\<close>.
\<close>

definition grown :: "lid \<Rightarrow> 'a store \<Rightarrow> node_ptr \<Rightarrow> 'a store \<Rightarrow> addr list \<Rightarrow> bool" where
  "grown this st node st' as \<longleftrightarrow>
     (\<exists>nxt. get_next st' node = Some nxt \<and> chain (nodes st') nxt as)
   \<and> (\<forall>q. q \<noteq> node \<longrightarrow> get_next st q \<noteq> None \<longrightarrow> get_next st' q = get_next st q)
   \<and> (\<forall>q. get_value st q \<noteq> None \<longrightarrow> get_value st' q = get_value st q)
   \<and> dom (nodes st') = dom (nodes st) \<union> set as \<and> set as \<inter> dom (nodes st) = {} \<and> 0 \<notin> set as
   \<and> length (lists st') = length (lists st)
   \<and> (\<forall>l. l \<noteq> this \<longrightarrow> get_size st' l = get_size st l)"

text \<open>
  \<open>built st st' as xs\<close>: \<open>st'\<close> is \<open>st\<close> with one more list object, whose nodes are the
  new nodes \<open>as\<close> holding the values \<open>xs\<close> and whose size is the length of \<open>xs\<close>.
\<close>

definition built :: "'a store \<Rightarrow> 'a store \<Rightarrow> addr list \<Rightarrow> 'a list \<Rightarrow> bool" where
  "built st st' as xs \<longleftrightarrow>
     (\<exists>p. lists st' = lists st @ [\<lparr>head_next_node = p, m_size = of_nat (length xs)\<rparr>]
          \<and> chain (nodes st') p as)
     \<and> vals (nodes st') as = xs
     \<and> (\<forall>a. a \<notin> set as \<longrightarrow> nodes st' a = nodes st a)
     \<and> set as \<inter> dom (nodes st) = {} \<and> 0 \<notin> set as"



text \<open>The iterator that \<open>k\<close> increments make of \<open>it\<close> (\<open>None\<close>: one of them was undefined).\<close>

primrec advance :: "'a store \<Rightarrow> BasicIterator \<Rightarrow> nat \<Rightarrow> BasicIterator option" where
  "advance st it 0 = Some it"
| "advance st it (Suc k) = (case it_pre_inc st it of None \<Rightarrow> None | Some it' \<Rightarrow> advance st it' k)"

text \<open>
  \<open>wf st ass\<close>: the store is well formed, with \<open>ass ! l\<close> the addresses of the nodes of
  list \<open>l\<close> in order. Every list's chain runs from \<open>head_.next_node\<close> through live nodes
  to null, \<open>size_\<close> counts its nodes, no node is at the null address, and no two lists
  share a node.
\<close>

definition wf :: "'a store \<Rightarrow> addr list list \<Rightarrow> bool" where
  "wf st ass \<longleftrightarrow>
     length ass = length (lists st)
   \<and> (\<forall>l<length ass. chain (nodes st) (head_next_node (lists st ! l)) (ass ! l)
          \<and> unat (m_size (lists st ! l)) = length (ass ! l) \<and> 0 \<notin> set (ass ! l))
   \<and> (\<forall>i<length ass. \<forall>j<length ass. i \<noteq> j \<longrightarrow> set (ass ! i) \<inter> set (ass ! j) = {})"

text \<open>
  The positions of a list with the nodes \<open>as\<close>: position 0 is \<open>before_begin()\<close>, position
  \<open>k > 0\<close> refers to the \<open>k\<close>-th node.
\<close>

definition position :: "lid \<Rightarrow> addr list \<Rightarrow> nat \<Rightarrow> BasicIterator" where
  "position this as k =
     (if k = 0 then before_begin this else BasicIterator (Some (Cell (as ! (k - 1)))))"

text \<open>
  The successor relation on the nodes of a heap, and the nodes that can be reached from
  \<open>head_.next_node\<close> of a list (the sentinel is not among them).
\<close>

definition node_succ :: "'a heap \<Rightarrow> (addr \<times> addr) set" where
  "node_succ h = {(a, b). \<exists>n. h a = Some n \<and> next_node n = Some (Cell b)}"

definition reachable_nodes :: "'a store \<Rightarrow> lid \<Rightarrow> addr set" where
  "reachable_nodes st l =
     {b. \<exists>a. head_next_node (lists st ! l) = Some (Cell a) \<and> (a, b) \<in> (node_succ (nodes st))\<^sup>*}"

text \<open>
  The stores that a program can reach with the public operations, each called within
  its preconditions and without failure: on live list objects, and, for \<open>InsertAfter\<close>
  and \<open>EraseAfter\<close>, at a position reached from \<open>before_begin()\<close> of the same list.
\<close>

inductive reachable :: "'a store \<Rightarrow> bool" where
  start: "reachable \<lparr>lists = [], nodes = Map.empty\<rparr>"
| by_default_ctor:
    "reachable st \<Longrightarrow> default_ctor st = (l, st') \<Longrightarrow> reachable st'"
| by_ctor_initializer_list:
    "reachable st \<Longrightarrow> ctor_initializer_list alloc st values = Some (Inr (l, st')) \<Longrightarrow> reachable st'"
| by_ctor_copy:
    "reachable st \<Longrightarrow> other < length (lists st) \<Longrightarrow>
     ctor_copy alloc st other = Some (Inr (l, st')) \<Longrightarrow> reachable st'"
| by_copy_assign:
    "reachable st \<Longrightarrow> this < length (lists st) \<Longrightarrow> rhs < length (lists st) \<Longrightarrow>
     copy_assign alloc st this rhs = Some (Inr (l, st')) \<Longrightarrow> reachable st'"
| by_swap:
    "reachable st \<Longrightarrow> swap st this other = Inr ((), st') \<Longrightarrow> reachable st'"
| by_swap_free:
    "reachable st \<Longrightarrow> swap_free st lhs rhs = Inr ((), st') \<Longrightarrow> reachable st'"
| by_PushFront:
    "reachable st \<Longrightarrow> PushFront alloc st this val = Inr ((), st') \<Longrightarrow> reachable st'"
| by_InsertAfter:
    "reachable st \<Longrightarrow> advance st (before_begin this) k = Some pos \<Longrightarrow>
     InsertAfter alloc st this pos val = Inr (it, st') \<Longrightarrow> reachable st'"
| by_PopFront:
    "reachable st \<Longrightarrow> PopFront st this = Inr ((), st') \<Longrightarrow> reachable st'"
| by_EraseAfter:
    "reachable st \<Longrightarrow> advance st (before_begin this) k = Some pos \<Longrightarrow>
     EraseAfter st this pos = Inr (it, st') \<Longrightarrow> reachable st'"
| by_Clear:
    "reachable st \<Longrightarrow> Clear st this = Some (Inr ((), st')) \<Longrightarrow> reachable st'"

text \<open>The store that the constructor makes of \<open>{10, 20, 30}\<close> with the pool \<open>1, 2, 3\<close>.\<close>

definition three_store :: "int store" where
  "three_store =
     \<lparr>lists = [\<lparr>head_next_node = Some (Cell 1), m_size = 3\<rparr>],
      nodes = [1 \<mapsto> \<lparr>value = 10, next_node = Some (Cell 2)\<rparr>,
               3 \<mapsto> \<lparr>value = 30, next_node = None\<rparr>,
               2 \<mapsto> \<lparr>value = 20, next_node = Some (Cell 3)\<rparr>]\<rparr>"


section \<open>Chains\<close>

lemma chain_Nil [simp]: "chain h p [] = (p = None)"
  by (simp add: chain_def)

lemma chain_Cons [simp]:
  "chain h p (a # as) = (p = Some (Cell a) \<and> (\<exists>n. h a = Some n \<and> chain h (next_node n) as))"
  by (simp add: chain_def split: option.splits)

lemma vals_Nil [simp]: "vals h [] = []"
  by (simp add: vals_def)

lemma vals_Cons [simp]: "vals h (a # as) = value (the (h a)) # vals h as"
  by (simp add: vals_def)

lemma length_vals [simp]: "length (vals h as) = length as"
  by (simp add: vals_def)

lemma path_append:
  "path h p (as @ bs) q = (\<exists>r. path h p as r \<and> path h r bs q)"
  by (induction as arbitrary: p) (auto split: option.splits)

lemma chain_append:
  "chain h p (as @ bs) = (\<exists>r. path h p as r \<and> chain h r bs)"
  by (simp add: chain_def path_append)

lemma chain_unique: "chain h p as \<Longrightarrow> chain h p bs \<Longrightarrow> as = bs"
proof (induction as arbitrary: p bs)
  case Nil
  then show ?case by (cases bs) auto
next
  case (Cons a as)
  then show ?case by (cases bs) auto
qed

lemma chain_in_dom: "chain h p as \<Longrightarrow> a \<in> set as \<Longrightarrow> h a \<noteq> None"
  by (induction as arbitrary: p) auto

lemma chain_suffix:
  "chain h p as \<Longrightarrow> a \<in> set as \<Longrightarrow> \<exists>pre post. as = pre @ a # post \<and> chain h (Some (Cell a)) (a # post)"
proof (induction as arbitrary: p)
  case Nil
  then show ?case by simp
next
  case (Cons b as)
  show ?case
  proof (cases "a = b")
    case True
    with Cons.prems show ?thesis by (intro exI[of _ "[]"] exI[of _ as]) auto
  next
    case False
    with Cons.prems obtain n where n: "h b = Some n" "chain h (next_node n) as" "a \<in> set as"
      by auto
    from Cons.IH[OF n(2,3)] obtain pre post
      where "as = pre @ a # post" "chain h (Some (Cell a)) (a # post)" by blast
    with n(1) Cons.prems(1) show ?thesis by (intro exI[of _ "b # pre"] exI[of _ post]) auto
  qed
qed

lemma chain_head_notin_tail:
  assumes "chain h (Some (Cell a)) (a # as)" shows "a \<notin> set as"
proof
  assume "a \<in> set as"
  from assms obtain n where n: "h a = Some n" "chain h (next_node n) as" by auto
  from chain_suffix[OF n(2) \<open>a \<in> set as\<close>] obtain pre post
    where pp: "as = pre @ a # post" "chain h (Some (Cell a)) (a # post)" by blast
  from chain_unique[OF assms pp(2)] pp(1) show False by simp
qed

lemma chain_distinct: "chain h p as \<Longrightarrow> distinct as"
proof (induction as arbitrary: p)
  case Nil
  then show ?case by simp
next
  case (Cons a as)
  then have "a \<notin> set as" using chain_head_notin_tail[of h a as] by auto
  with Cons show ?case by auto
qed

lemma path_upd_other: "a \<notin> set as \<Longrightarrow> path (h(a := x)) p as q = path h p as q"
  by (induction as arbitrary: p) (auto split: option.splits)

lemma chain_upd_other: "a \<notin> set as \<Longrightarrow> chain (h(a := x)) p as = chain h p as"
  by (simp add: chain_def path_upd_other)

lemma vals_upd_other: "a \<notin> set as \<Longrightarrow> vals (h(a := x)) as = vals h as"
  by (simp add: vals_def)

lemma path_cong: "(\<And>a. a \<in> set as \<Longrightarrow> h' a = h a) \<Longrightarrow> path h' p as q = path h p as q"
  by (induction as arbitrary: p) (auto split: option.splits)

lemma chain_cong: "(\<And>a. a \<in> set as \<Longrightarrow> h' a = h a) \<Longrightarrow> chain h' p as = chain h p as"
  unfolding chain_def by (rule path_cong)

lemma vals_cong: "(\<And>a. a \<in> set as \<Longrightarrow> h' a = h a) \<Longrightarrow> vals h' as = vals h as"
  by (simp add: vals_def)

text \<open>A list of distinct non-null 64-bit addresses is shorter than 2^64.\<close>

lemma length_addrs_bound:
  fixes as :: "addr list"
  assumes "distinct as" "0 \<notin> set as"
  shows "length as < 2 ^ 64"
proof -
  have "set as \<subseteq> UNIV - {0}" using assms by auto
  then have "card (set as) \<le> card (UNIV - {0 :: addr})"
    by (intro card_mono) auto
  also have "\<dots> = 2 ^ 64 - 1"
    by (simp add: card_Diff_singleton card_word)
  finally have "length as \<le> 2 ^ 64 - 1" using assms by (simp add: distinct_card)
  then show ?thesis by simp
qed

lemma collect_chain:
  "chain (nodes st) p as \<Longrightarrow>
   collect st (BasicIterator p) end_it out = Some (Inr (out @ vals (nodes st) as))"
proof (induction as arbitrary: p out)
  case Nil
  then show ?case by (subst collect.simps) (simp add: it_ne_def end_it_def)
next
  case (Cons a as)
  then obtain n where n: "p = Some (Cell a)" "nodes st a = Some n" "chain (nodes st) (next_node n) as"
    by auto
  show ?case
    by (subst collect.simps)
       (simp add: n it_ne_def end_it_def it_deref_def get_value_def it_pre_inc_def get_next_def
          Cons.IH[OF n(3), unfolded end_it_def])
qed

section \<open>Reading a store, step by step\<close>

text \<open>A store is determined by what can be read from it.\<close>

lemma node_eqI:
  fixes n m :: "'a Node"
  shows "value n = value m \<Longrightarrow> next_node n = next_node m \<Longrightarrow> n = m"
  by simp

lemma get_size_iff: "get_size st l \<noteq> None \<longleftrightarrow> l < length (lists st)"
  by (simp add: get_size_def)

lemma get_next_Sentinel_iff: "get_next st (Some (Sentinel l)) \<noteq> None \<longleftrightarrow> l < length (lists st)"
  by (simp add: get_next_def)

lemma store_ext:
  fixes s t :: "'a store"
  assumes "length (lists s) = length (lists t)"
    and "\<And>p. get_next s p = get_next t p"
    and "\<And>p. get_value s p = get_value t p"
    and "\<And>l. get_size s l = get_size t l"
  shows "s = t"
proof -
  have "lists s = lists t"
  proof (rule nth_equalityI[OF assms(1)])
    fix i assume i: "i < length (lists s)"
    from assms(2)[of "Some (Sentinel i)"] i assms(1)
    have "head_next_node (lists s ! i) = head_next_node (lists t ! i)"
      by (simp add: get_next_def)
    moreover from assms(4)[of i] i assms(1) have "m_size (lists s ! i) = m_size (lists t ! i)"
      by (simp add: get_size_def)
    ultimately show "lists s ! i = lists t ! i" by simp
  qed
  moreover have "nodes s = nodes t"
  proof
    fix a
    from assms(2)[of "Some (Cell a)"] assms(3)[of "Some (Cell a)"]
    show "nodes s a = nodes t a"
      by (cases "nodes s a"; cases "nodes t a") (simp_all add: get_next_def get_value_def)
  qed
  ultimately show ?thesis by simp
qed

text \<open>What each primitive step changes.\<close>

lemma set_next_effect:
  assumes "get_next st p \<noteq> None"
  obtains st' where "set_next st p q = Some st'"
    "\<And>p'. get_next st' p' = (if p' = p then Some q else get_next st p')"
    "\<And>p'. get_value st' p' = get_value st p'"
    "\<And>l. get_size st' l = get_size st l"
    "length (lists st') = length (lists st)"
    "dom (nodes st') = dom (nodes st)"
proof (cases p)
  case None
  with assms show ?thesis by (simp add: get_next_def)
next
  case (Some r)
  show ?thesis
  proof (cases r)
    case (Sentinel l)
    with Some assms have l: "l < length (lists st)" by (simp add: get_next_def split: if_splits)
    show ?thesis
    proof (rule that)
      show "set_next st p q = Some (st\<lparr>lists := (lists st)[l := (lists st ! l)\<lparr>head_next_node := q\<rparr>]\<rparr>)"
        using l Some Sentinel by (simp add: set_next_def)
    qed (use l Some Sentinel in \<open>auto simp: get_next_def get_value_def get_size_def nth_list_update
             split: option.splits ptr.splits\<close>)
  next
    case (Cell b)
    with Some assms obtain n where n: "nodes st b = Some n" by (auto simp: get_next_def)
    show ?thesis
    proof (rule that)
      show "set_next st p q = Some (st\<lparr>nodes := (nodes st)(b \<mapsto> n\<lparr>next_node := q\<rparr>)\<rparr>)"
        using n Some Cell by (simp add: set_next_def)
    qed (use n Some Cell in \<open>auto simp: get_next_def get_value_def get_size_def
             split: option.splits ptr.splits\<close>)
  qed
qed

lemma set_size_effect:
  assumes "l < length (lists st)"
  obtains st' where "set_size st l s = Some st'"
    "\<And>p. get_next st' p = get_next st p"
    "\<And>p. get_value st' p = get_value st p"
    "\<And>l'. get_size st' l' = (if l' = l then Some s else get_size st l')"
    "length (lists st') = length (lists st)"
    "nodes st' = nodes st"
proof (rule that)
  show "set_size st l s = Some (st\<lparr>lists := (lists st)[l := (lists st ! l)\<lparr>m_size := s\<rparr>]\<rparr>)"
    using assms by (simp add: set_size_def)
qed (use assms in \<open>auto simp: get_next_def get_value_def get_size_def nth_list_update
         split: option.splits ptr.splits\<close>)

lemma new_Node_effect:
  obtains (fail) "new_Node alloc st v nxt = Inl (bad_alloc st)"
  | (ok) a st' where "new_Node alloc st v nxt = Inr (Some (Cell a), st')"
      "nodes st a = None" "a \<noteq> 0"
      "\<And>p. get_next st' p = (if p = Some (Cell a) then Some nxt else get_next st p)"
      "\<And>p. get_value st' p = (if p = Some (Cell a) then Some v else get_value st p)"
      "\<And>l. get_size st' l = get_size st l"
      "lists st' = lists st"
      "dom (nodes st') = insert a (dom (nodes st))"
proof (cases "new_Node alloc st v nxt = Inl (bad_alloc st)")
  case True
  then show ?thesis by (rule fail)
next
  case False
  then obtain a where a: "alloc (nodes st) = Some a" "a \<noteq> 0" "nodes st a = None"
    by (auto simp: new_Node_def split: option.splits if_splits)
  show ?thesis
  proof (rule ok)
    show "new_Node alloc st v nxt =
       Inr (Some (Cell a), st\<lparr>nodes := (nodes st)(a \<mapsto> \<lparr>value = v, next_node = nxt\<rparr>)\<rparr>)"
      using a by (simp add: new_Node_def)
  qed (use a in \<open>auto simp: get_next_def get_value_def get_size_def split: option.splits ptr.splits\<close>)
qed

lemma new_Node_refused: "new_Node alloc st v nxt = Inl e \<Longrightarrow> \<not> serves alloc (nodes st)"
  by (auto simp: new_Node_def serves_def split: option.splits if_splits)

lemma new_Node_served:
  "serves alloc (nodes st) \<Longrightarrow> \<exists>a st'. new_Node alloc st v nxt = Inr (Some (Cell a), st')"
  by (auto simp: new_Node_def serves_def split: option.splits)

lemma delete_Node_effect:
  assumes "get_next st (Some (Cell a)) \<noteq> None"
  obtains st' where "delete_Node st (Some (Cell a)) = Some st'"
    "\<And>p. get_next st' p = (if p = Some (Cell a) then None else get_next st p)"
    "\<And>p. get_value st' p = (if p = Some (Cell a) then None else get_value st p)"
    "\<And>l. get_size st' l = get_size st l"
    "lists st' = lists st"
    "nodes st' = (nodes st)(a := None)"
proof (rule that)
  show "delete_Node st (Some (Cell a)) = Some (st\<lparr>nodes := (nodes st)(a := None)\<rparr>)"
    using assms by (auto simp: delete_Node_def get_next_def)
qed (auto simp: get_next_def get_value_def get_size_def split: option.splits ptr.splits)

lemma inc_size_effect:
  assumes "get_size st l = Some s"
  obtains st' where "inc_size st l = Some st'"
    "\<And>p. get_next st' p = get_next st p"
    "\<And>p. get_value st' p = get_value st p"
    "\<And>l'. get_size st' l' = (if l' = l then Some (s + 1) else get_size st l')"
    "length (lists st') = length (lists st)"
    "nodes st' = nodes st"
proof -
  from assms have l: "l < length (lists st)" by (simp add: get_size_def split: if_splits)
  obtain st' where st': "set_size st l (s + 1) = Some st'"
    "\<And>p. get_next st' p = get_next st p"
    "\<And>p. get_value st' p = get_value st p"
    "\<And>l'. get_size st' l' = (if l' = l then Some (s + 1) else get_size st l')"
    "length (lists st') = length (lists st)"
    "nodes st' = nodes st"
    by (rule set_size_effect[OF l, of "s + 1"]) blast
  show ?thesis
    by (rule that[of st']) (simp_all add: inc_size_def assms st')
qed

lemma dec_size_effect:
  assumes "get_size st l = Some s"
  obtains st' where "dec_size st l = Some st'"
    "\<And>p. get_next st' p = get_next st p"
    "\<And>p. get_value st' p = get_value st p"
    "\<And>l'. get_size st' l' = (if l' = l then Some (s - 1) else get_size st l')"
    "length (lists st') = length (lists st)"
    "nodes st' = nodes st"
proof -
  from assms have l: "l < length (lists st)" by (simp add: get_size_def split: if_splits)
  obtain st' where st': "set_size st l (s - 1) = Some st'"
    "\<And>p. get_next st' p = get_next st p"
    "\<And>p. get_value st' p = get_value st p"
    "\<And>l'. get_size st' l' = (if l' = l then Some (s - 1) else get_size st l')"
    "length (lists st') = length (lists st)"
    "nodes st' = nodes st"
    by (rule set_size_effect[OF l, of "s - 1"]) blast
  show ?thesis
    by (rule that[of st']) (simp_all add: dec_size_def assms st')
qed

lemma fresh_reads:
  "nodes st a = None \<Longrightarrow> get_next st (Some (Cell a)) = None"
  "nodes st a = None \<Longrightarrow> get_value st (Some (Cell a)) = None"
  by (simp_all add: get_next_def get_value_def)

section \<open>swap\<close>

lemma sll_eqI:
  fixes L R :: SingleLinkedList
  shows "head_next_node L = head_next_node R \<Longrightarrow> m_size L = m_size R \<Longrightarrow> L = R"
  by simp

lemma sll_overwrite [simp]:
  fixes L R :: SingleLinkedList
  shows "L\<lparr>head_next_node := head_next_node R, m_size := m_size R\<rparr> = R"
  by (rule sll_eqI) simp_all

lemma swap_self: "A < length (lists st) \<Longrightarrow> swap st A A = Inr ((), st)"
  by (simp add: swap_def get_next_def set_next_def get_size_def set_size_def)

lemma swap_valid:
  assumes "A < length (lists st)" "B < length (lists st)"
  shows "swap st A B = Inr ((), st\<lparr>lists := (lists st)[A := lists st ! B, B := lists st ! A]\<rparr>)"
proof (cases "A = B")
  case True
  with assms show ?thesis by (simp add: swap_self)
next
  case False
  have "(lists st)
      [A := (lists st ! A)\<lparr>head_next_node := head_next_node (lists st ! B)\<rparr>,
       B := (lists st ! B)\<lparr>head_next_node := head_next_node (lists st ! A)\<rparr>,
       A := (lists st ! A)\<lparr>head_next_node := head_next_node (lists st ! B),
                            m_size := m_size (lists st ! B)\<rparr>,
       B := (lists st ! B)\<lparr>head_next_node := head_next_node (lists st ! A),
                            m_size := m_size (lists st ! A)\<rparr>]
     = (lists st)[A := lists st ! B, B := lists st ! A]"
    using assms False by (intro nth_equalityI) (simp_all add: nth_list_update)
  with assms False show ?thesis
    by (simp add: swap_def get_next_def set_next_def get_size_def set_size_def)
qed

lemma it_deref_nodes: "nodes st' = nodes st \<Longrightarrow> it_deref st' it = it_deref st it"
  by (simp add: it_deref_def get_value_def split: option.splits ptr.splits)

lemma it_pre_inc_nodes:
  "nodes st' = nodes st \<Longrightarrow> it_deref st it = Some x \<Longrightarrow> it_pre_inc st' it = it_pre_inc st it"
  by (auto simp: it_deref_def get_value_def it_pre_inc_def get_next_def split: option.splits ptr.splits)

lemma collect_nodes_le_aux:
  "collect st it e out = Some r \<Longrightarrow> nodes st' = nodes st \<longrightarrow> collect st' it e out = Some r"
proof (induction rule: collect.raw_induct[rotated 1, consumes 1])
  case (1 f s it e out r)
  show ?case
  proof
    assume eq: "nodes st' = nodes s"
    show "collect st' it e out = Some r"
    proof (cases "it_ne it e")
      case False
      with 1(2) show ?thesis by (subst collect.simps) simp
    next
      case True
      show ?thesis
      proof (cases "it_deref s it")
        case None
        with 1(2) True show ?thesis
          by (subst collect.simps) (simp add: it_deref_nodes[OF eq])
      next
        case (Some x)
        note dx = this
        show ?thesis
        proof (cases "it_pre_inc s it")
          case None
          with 1(2) True dx show ?thesis
            by (subst collect.simps) (simp add: it_deref_nodes[OF eq] it_pre_inc_nodes[OF eq dx])
        next
          case (Some it')
          with 1(2) True dx have "f s it' e (out @ [x]) = Some r" by simp
          from 1(1)[OF this] eq True Some dx show ?thesis
            by (subst collect.simps)
               (simp add: it_deref_nodes[OF eq] it_pre_inc_nodes[OF eq dx])
        qed
      qed
    qed
  qed
qed

lemma collect_nodes_le:
  "collect st it e out = Some r \<Longrightarrow> nodes st' = nodes st \<Longrightarrow> collect st' it e out = Some r"
  using collect_nodes_le_aux by blast

lemma collect_nodes_only:
  assumes "nodes st' = nodes st"
  shows "collect st' it e out = collect st it e out"
proof (cases "collect st it e out")
  case (Some r)
  from collect_nodes_le[OF Some assms] Some show ?thesis by simp
next
  case None
  show ?thesis
  proof (cases "collect st' it e out")
    case (Some r)
    from collect_nodes_le[OF Some assms[symmetric]] None show ?thesis by simp
  qed (simp add: None)
qed

lemma iterate_swap:
  assumes "nodes st' = nodes st" "A < length (lists st')" "B < length (lists st)"
          "head_next_node (lists st' ! A) = head_next_node (lists st ! B)"
  shows "iterate st' A = iterate st B"
  using assms by (simp add: iterate_def begin_it_def get_next_def collect_nodes_only[OF assms(1)])

section \<open>InsertAfter and EraseAfter\<close>

lemma insert_erase_restores:
  assumes "this < length (lists st)" "get_next st (m_node pos) = Some nxt"
  shows "InsertAfter alloc st this pos v = Inl (bad_alloc st) \<or>
         (\<exists>a st1. InsertAfter alloc st this pos v = Inr (BasicIterator (Some (Cell a)), st1)
              \<and> EraseAfter st1 this pos = Inr (BasicIterator nxt, st))"
proof (cases rule: new_Node_effect[of alloc st v nxt])
  case fail
  with assms show ?thesis by (simp add: InsertAfter_def)
next
  case (ok a st1)
  let ?p = "m_node pos"
  from assms(1) obtain s where s: "get_size st this = Some s" by (simp add: get_size_def)
  have pa: "?p \<noteq> Some (Cell a)" using assms(2) fresh_reads(1)[OF ok(2)] by auto
  have "get_next st1 ?p \<noteq> None" using ok(4) pa assms(2) by simp
  then obtain st2 where st2: "set_next st1 ?p (Some (Cell a)) = Some st2"
    "\<And>p'. get_next st2 p' = (if p' = ?p then Some (Some (Cell a)) else get_next st1 p')"
    "\<And>p'. get_value st2 p' = get_value st1 p'"
    "\<And>l. get_size st2 l = get_size st1 l"
    "length (lists st2) = length (lists st1)"
    by (rule set_next_effect) blast
  have "get_size st2 this = Some s" by (simp add: st2 ok s)
  then obtain st3 where st3: "inc_size st2 this = Some st3"
    "\<And>p. get_next st3 p = get_next st2 p"
    "\<And>p. get_value st3 p = get_value st2 p"
    "\<And>l'. get_size st3 l' = (if l' = this then Some (s + 1) else get_size st2 l')"
    "length (lists st3) = length (lists st2)"
    by (rule inc_size_effect) blast
  have ins: "InsertAfter alloc st this pos v = Inr (BasicIterator (Some (Cell a)), st3)"
    by (simp add: InsertAfter_def assms(2) ok(1) st2 st3)
  have "get_next st3 (Some (Cell a)) \<noteq> None" using pa by (simp add: st3 st2 ok)
  then obtain st4 where st4: "delete_Node st3 (Some (Cell a)) = Some st4"
    "\<And>p. get_next st4 p = (if p = Some (Cell a) then None else get_next st3 p)"
    "\<And>p. get_value st4 p = (if p = Some (Cell a) then None else get_value st3 p)"
    "\<And>l. get_size st4 l = get_size st3 l"
    "lists st4 = lists st3"
    by (rule delete_Node_effect) blast
  have "get_next st4 ?p \<noteq> None" using pa by (simp add: st4 st3 st2)
  then obtain st5 where st5: "set_next st4 ?p nxt = Some st5"
    "\<And>p'. get_next st5 p' = (if p' = ?p then Some nxt else get_next st4 p')"
    "\<And>p'. get_value st5 p' = get_value st4 p'"
    "\<And>l. get_size st5 l = get_size st4 l"
    "length (lists st5) = length (lists st4)"
    by (rule set_next_effect) blast
  have "get_size st5 this = Some (s + 1)" by (simp add: st5 st4 st3)
  then obtain st6 where st6: "dec_size st5 this = Some st6"
    "\<And>p. get_next st6 p = get_next st5 p"
    "\<And>p. get_value st6 p = get_value st5 p"
    "\<And>l'. get_size st6 l' = (if l' = this then Some (s + 1 - 1) else get_size st5 l')"
    "length (lists st6) = length (lists st5)"
    by (rule dec_size_effect) blast
  have era: "EraseAfter st3 this pos = Inr (BasicIterator nxt, st6)"
    using pa by (simp add: EraseAfter_def st3 st2 ok st4 st5 st6)
  have "st6 = st"
  proof (rule store_ext)
    show "length (lists st6) = length (lists st)"
      by (simp add: st6 st5 st4 st3 st2 ok)
    show "get_next st6 p = get_next st p" for p
      using assms(2) fresh_reads(1)[OF ok(2)] by (simp add: st6 st5 st4 st3 st2 ok)
    show "get_value st6 p = get_value st p" for p
      using fresh_reads(2)[OF ok(2)] by (simp add: st6 st5 st4 st3 st2 ok)
    show "get_size st6 l = get_size st l" for l
      using s by (simp add: st6 st5 st4 st3 st2 ok)
  qed
  with ins era show ?thesis by blast
qed


lemma collect_result_aux:
  "collect st it e out = Some r \<Longrightarrow>
     e = end_it \<longrightarrow> (\<forall>zs. r = Inr zs \<longrightarrow>
        (\<exists>as. chain (nodes st) (m_node it) as \<and> zs = out @ vals (nodes st) as))"
proof (induction rule: collect.raw_induct[rotated 1, consumes 1])
  case (1 f s it e out r)
  show ?case
  proof (intro impI allI)
    fix zs assume e: "e = end_it" and r: "r = Inr zs"
    show "\<exists>as. chain (nodes s) (m_node it) as \<and> zs = out @ vals (nodes s) as"
    proof (cases "m_node it")
      case None
      with 1(2) e r have "zs = out" by (simp add: it_ne_def end_it_def)
      with None show ?thesis by (intro exI[of _ "[]"]) simp
    next
      case (Some p)
      with 1(2) e r obtain x it' where x: "it_deref s it = Some x" "it_pre_inc s it = Some it'"
        "f s it' e (out @ [x]) = Some (Inr zs)"
        by (auto simp: it_ne_def end_it_def split: option.splits)
      from 1(1)[OF x(3)] e obtain as where as: "chain (nodes s) (m_node it') as"
        "zs = (out @ [x]) @ vals (nodes s) as" by blast
      from x(1) Some obtain a n where a: "p = Cell a" "nodes s a = Some n" "value n = x"
        by (auto simp: it_deref_def get_value_def split: ptr.splits)
      with x(2) Some have "m_node it' = next_node n"
        by (auto simp: it_pre_inc_def get_next_def)
      with as a Some show ?thesis by (intro exI[of _ "a # as"]) simp
    qed
  qed
qed

lemma iterate_iff:
  "iterate st l = Some (Inr xs) \<longleftrightarrow>
     l < length (lists st) \<and>
     (\<exists>as. chain (nodes st) (head_next_node (lists st ! l)) as \<and> vals (nodes st) as = xs)"
proof
  assume it: "iterate st l = Some (Inr xs)"
  then have l: "l < length (lists st)"
    by (auto simp: iterate_def begin_it_def get_next_def split: option.splits if_splits)
  with it have "collect st (BasicIterator (head_next_node (lists st ! l))) end_it [] = Some (Inr xs)"
    by (simp add: iterate_def begin_it_def get_next_def)
  from collect_result_aux[OF this] l
  show "l < length (lists st) \<and>
     (\<exists>as. chain (nodes st) (head_next_node (lists st ! l)) as \<and> vals (nodes st) as = xs)"
    by auto
next
  assume "l < length (lists st) \<and>
     (\<exists>as. chain (nodes st) (head_next_node (lists st ! l)) as \<and> vals (nodes st) as = xs)"
  then show "iterate st l = Some (Inr xs)"
    by (auto simp: iterate_def begin_it_def get_next_def collect_chain)
qed

lemma std_equal_chain:
  "chain (nodes st) p as \<Longrightarrow> chain (nodes st) q bs \<Longrightarrow>
   std_equal eq st (BasicIterator p) end_it (BasicIterator q) end_it
     = Some (Inr (list_all2 eq (vals (nodes st) as) (vals (nodes st) bs)))"
proof (induction as arbitrary: p q bs)
  case Nil
  then show ?case
    by (subst std_equal.simps) (cases bs; auto simp: it_ne_def it_eq_def end_it_def)
next
  case (Cons a as)
  then obtain n where n: "p = Some (Cell a)" "nodes st a = Some n" "chain (nodes st) (next_node n) as"
    by auto
  show ?case
  proof (cases bs)
    case Nil
    with Cons.prems n show ?thesis
      by (subst std_equal.simps) (simp add: it_ne_def it_eq_def end_it_def)
  next
    case (Cons b bs')
    with Cons.prems obtain m where m: "q = Some (Cell b)" "nodes st b = Some m"
      "chain (nodes st) (next_node m) bs'" by auto
    from Cons.IH[OF n(3) m(3)] show ?thesis
      by (subst std_equal.simps)
         (simp add: Cons n m it_ne_def it_eq_def end_it_def it_deref_def get_value_def
            it_pre_inc_def get_next_def)
  qed
qed

lemma std_lexicographical_compare_chain:
  assumes "\<And>x. \<not> lt x x" "\<And>x y. x \<noteq> y \<Longrightarrow> lt x y \<or> lt y x"
  shows "chain (nodes st) p as \<Longrightarrow> chain (nodes st) q bs \<Longrightarrow>
   std_lexicographical_compare lt st (BasicIterator p) end_it (BasicIterator q) end_it
     = Some (Inr ((vals (nodes st) as, vals (nodes st) bs) \<in> lexord {(x, y). lt x y}))"
proof (induction as arbitrary: p q bs)
  case Nil
  then show ?case
    by (subst std_lexicographical_compare.simps) (cases bs; auto simp: it_ne_def it_eq_def end_it_def)
next
  case (Cons a as)
  then obtain n where n: "p = Some (Cell a)" "nodes st a = Some n" "chain (nodes st) (next_node n) as"
    by auto
  show ?case
  proof (cases bs)
    case Nil
    with Cons.prems n show ?thesis
      by (subst std_lexicographical_compare.simps) (simp add: it_ne_def it_eq_def end_it_def)
  next
    case (Cons b bs')
    with Cons.prems obtain m where m: "q = Some (Cell b)" "nodes st b = Some m"
      "chain (nodes st) (next_node m) bs'" by auto
    have eq: "\<not> lt (value n) (value m) \<Longrightarrow> \<not> lt (value m) (value n) \<Longrightarrow> value n = value m"
      using assms(2) by blast
    from Cons.IH[OF n(3) m(3)] assms(1) eq show ?thesis
      by (subst std_lexicographical_compare.simps)
         (auto simp: Cons n m it_ne_def it_eq_def end_it_def it_deref_def get_value_def
            it_pre_inc_def get_next_def)
  qed
qed

lemma operator_eq_chain:
  assumes "iterate st L1 = Some (Inr xs)" "iterate st L2 = Some (Inr ys)"
  shows "operator_eq eq st L1 L2 = Some (Inr (list_all2 eq xs ys))"
proof -
  from assms obtain as bs where
    a: "L1 < length (lists st)" "chain (nodes st) (head_next_node (lists st ! L1)) as"
       "vals (nodes st) as = xs" and
    b: "L2 < length (lists st)" "chain (nodes st) (head_next_node (lists st ! L2)) bs"
       "vals (nodes st) bs = ys"
    unfolding iterate_iff by blast
  from std_equal_chain[OF a(2) b(2), of eq] a b show ?thesis
    by (simp add: operator_eq_def begin_it_def get_next_def)
qed

lemma operator_lt_chain:
  assumes "\<forall>x. \<not> lt x x" "\<forall>x y. x \<noteq> y \<longrightarrow> lt x y \<or> lt y x"
    and "iterate st L1 = Some (Inr xs)" "iterate st L2 = Some (Inr ys)"
  shows "operator_lt lt st L1 L2 = Some (Inr ((xs, ys) \<in> lexord {(x, y). lt x y}))"
proof -
  from assms(3,4) obtain as bs where
    a: "L1 < length (lists st)" "chain (nodes st) (head_next_node (lists st ! L1)) as"
       "vals (nodes st) as = xs" and
    b: "L2 < length (lists st)" "chain (nodes st) (head_next_node (lists st ! L2)) bs"
       "vals (nodes st) bs = ys"
    unfolding iterate_iff by blast
  have "std_lexicographical_compare lt st (BasicIterator (head_next_node (lists st ! L1))) end_it
          (BasicIterator (head_next_node (lists st ! L2))) end_it
     = Some (Inr ((vals (nodes st) as, vals (nodes st) bs) \<in> lexord {(x, y). lt x y}))"
    by (rule std_lexicographical_compare_chain[OF _ _ a(2) b(2)]) (use assms(1,2) in blast)+
  with a b show ?thesis
    by (simp add: operator_lt_def begin_it_def get_next_def)
qed

lemma grownD:
  assumes "grown this st node st' as"
  shows "\<exists>nxt. get_next st' node = Some nxt \<and> chain (nodes st') nxt as"
    and "\<And>q. q \<noteq> node \<Longrightarrow> get_next st q \<noteq> None \<Longrightarrow> get_next st' q = get_next st q"
    and "\<And>q. get_value st q \<noteq> None \<Longrightarrow> get_value st' q = get_value st q"
    and "dom (nodes st') = dom (nodes st) \<union> set as"
    and "set as \<inter> dom (nodes st) = {}"
    and "0 \<notin> set as"
    and "length (lists st') = length (lists st)"
    and "\<And>l. l \<noteq> this \<Longrightarrow> get_size st' l = get_size st l"
  using assms by (simp_all add: grown_def)

lemma cell_ext:
  "get_next s (Some (Cell a)) = get_next t (Some (Cell a)) \<Longrightarrow>
   get_value s (Some (Cell a)) = get_value t (Some (Cell a)) \<Longrightarrow> nodes s a = nodes t a"
  by (cases "nodes s a"; cases "nodes t a") (simp_all add: get_next_def get_value_def)

lemma get_next_Cell_dom: "get_next st (Some (Cell a)) \<noteq> None \<longleftrightarrow> a \<in> dom (nodes st)"
  by (auto simp: get_next_def)

lemma get_value_Cell_dom: "get_value st (Some (Cell a)) \<noteq> None \<longleftrightarrow> a \<in> dom (nodes st)"
  by (auto simp: get_value_def)

lemma get_value_SomeD: "get_value st p = Some x \<Longrightarrow> \<exists>a n. p = Some (Cell a) \<and> nodes st a = Some n \<and> value n = x"
  by (auto simp: get_value_def split: option.splits ptr.splits)

lemma get_next_CellD: "get_next st (Some (Cell a)) = Some q \<Longrightarrow> \<exists>n. nodes st a = Some n \<and> next_node n = q"
  by (auto simp: get_next_def)

lemma Init_loop_effect:
  assumes "range_of star inc (agree F h0) it e xs"
    and "st \<in> agree F h0" "F \<subseteq> dom (nodes st)"
    and "get_size st this = Some s"
    and "get_next st node = Some None"
    and "\<forall>a\<in>F. node \<noteq> Some (Cell a)"
  shows "\<exists>st' as ok.
           Init_loop star inc alloc this e st node it
             = Some (if ok then Inr ((), st') else Inl (bad_alloc st'))
         \<and> grown this st node st' as
         \<and> (ok \<longrightarrow> vals (nodes st') as = xs \<and> get_size st' this = Some (s + of_nat (length xs)))
         \<and> (\<not> ok \<longrightarrow> length as < length xs \<and> \<not> serves alloc (nodes st'))"
  using assms
proof (induction xs arbitrary: st node it s)
  case Nil
  then have "it = e" by simp
  then have "Init_loop star inc alloc this e st node it = Some (Inr ((), st))"
    by (subst Init_loop.simps) simp
  moreover have "grown this st node st []"
    using Nil.prems(5) by (simp add: grown_def)
  ultimately show ?case
    using Nil.prems(4) by (intro exI[of _ st] exI[of _ "[]"] exI[of _ True]) simp
next
  case (Cons x xs)
  from Cons.prems(1) obtain it' where it: "it \<noteq> e"
    "\<And>t. t \<in> agree F h0 \<Longrightarrow> star t it = Some x \<and> inc t it = Some it'"
    "range_of star inc (agree F h0) it' e xs" by auto
  note S = Cons.prems(2) and F = Cons.prems(3) and s = Cons.prems(4)
    and nd = Cons.prems(5) and nF = Cons.prems(6)
  obtain st1 where st1: "inc_size st this = Some st1"
    "\<And>p. get_next st1 p = get_next st p"
    "\<And>p. get_value st1 p = get_value st p"
    "\<And>l'. get_size st1 l' = (if l' = this then Some (s + 1) else get_size st l')"
    "length (lists st1) = length (lists st)"
    "nodes st1 = nodes st"
    by (rule inc_size_effect[OF s]) blast
  have S1: "st1 \<in> agree F h0" using S by (simp add: agree_def st1)
  have star1: "star st1 it = Some x" using it(2)[OF S1] by simp
  show ?case
  proof (cases rule: new_Node_effect[of alloc st1 x None])
    case fail
    have "Init_loop star inc alloc this e st node it = Some (Inl (bad_alloc st1))"
      by (subst Init_loop.simps) (simp add: it(1) st1 star1 fail)
    moreover have "grown this st node st1 []"
      using nd by (simp add: grown_def st1)
    moreover have "\<not> serves alloc (nodes st1)" by (rule new_Node_refused[OF fail])
    ultimately show ?thesis
      by (intro exI[of _ st1] exI[of _ "[]"] exI[of _ False]) simp
  next
    case (ok a st2)
    have a_fresh: "nodes st a = None" using ok(2) by (simp add: st1)
    have na: "node \<noteq> Some (Cell a)" using nd fresh_reads(1)[OF a_fresh] by auto
    have "get_next st2 node \<noteq> None" using na nd by (simp add: ok st1)
    then obtain st3 where st3: "set_next st2 node (Some (Cell a)) = Some st3"
      "\<And>p'. get_next st3 p' = (if p' = node then Some (Some (Cell a)) else get_next st2 p')"
      "\<And>p'. get_value st3 p' = get_value st2 p'"
      "\<And>l. get_size st3 l = get_size st2 l"
      "length (lists st3) = length (lists st2)"
      "dom (nodes st3) = dom (nodes st2)"
      by (rule set_next_effect) blast
    have aF: "a \<notin> F" using F a_fresh by auto
    have S3: "st3 \<in> agree F h0"
      unfolding agree_def
    proof (intro CollectI ballI)
      fix b assume b: "b \<in> F"
      with aF nF have "b \<noteq> a" "node \<noteq> Some (Cell b)" by auto
      then have "nodes st3 b = nodes st b"
        by (intro cell_ext) (simp_all add: st3 ok st1)
      with S b show "nodes st3 b = h0 b" by (simp add: agree_def)
    qed
    have inc3: "inc st3 it = Some it'" using it(2)[OF S3] by simp
    have dom3: "dom (nodes st3) = insert a (dom (nodes st))" by (simp add: st3 ok st1)
    have unfold: "Init_loop star inc alloc this e st node it
        = Init_loop star inc alloc this e st3 (Some (Cell a)) it'"
      by (subst Init_loop.simps) (simp add: it(1) st1 star1 ok st3 inc3)
    have "\<exists>st' as ok.
           Init_loop star inc alloc this e st3 (Some (Cell a)) it'
             = Some (if ok then Inr ((), st') else Inl (bad_alloc st'))
         \<and> grown this st3 (Some (Cell a)) st' as
         \<and> (ok \<longrightarrow> vals (nodes st') as = xs \<and> get_size st' this = Some (s + 1 + of_nat (length xs)))
         \<and> (\<not> ok \<longrightarrow> length as < length xs \<and> \<not> serves alloc (nodes st'))"
    proof (rule Cons.IH[OF it(3) S3])
      show "F \<subseteq> dom (nodes st3)" using F dom3 by auto
      show "get_size st3 this = Some (s + 1)" by (simp add: st3 ok st1)
      show "get_next st3 (Some (Cell a)) = Some None" using na by (simp add: st3 ok)
      show "\<forall>b\<in>F. Some (Cell a) \<noteq> Some (Cell b)" using aF by auto
    qed
    then obtain st' as ok where r:
      "Init_loop star inc alloc this e st3 (Some (Cell a)) it'
             = Some (if ok then Inr ((), st') else Inl (bad_alloc st'))"
      "grown this st3 (Some (Cell a)) st' as"
      "ok \<longrightarrow> vals (nodes st') as = xs \<and> get_size st' this = Some (s + 1 + of_nat (length xs))"
      "\<not> ok \<longrightarrow> length as < length xs \<and> \<not> serves alloc (nodes st')"
      by blast
    from grownD(1)[OF r(2)] obtain nxt where g12:
      "get_next st' (Some (Cell a)) = Some nxt" "chain (nodes st') nxt as" by blast
    note g = g12 grownD(2-8)[OF r(2)]
    have val_a: "get_value st' (Some (Cell a)) = Some x"
      using g(4)[of "Some (Cell a)"] by (simp add: st3 ok)
    have "grown this st node st' (a # as)"
      unfolding grown_def
    proof (intro conjI allI impI)
      have "get_next st' node = Some (Some (Cell a))"
        using g(3)[of node] na by (simp add: st3)
      moreover from get_next_CellD[OF g(1)] g(2) have "chain (nodes st') (Some (Cell a)) (a # as)"
        by auto
      ultimately show "\<exists>nxt. get_next st' node = Some nxt \<and> chain (nodes st') nxt (a # as)"
        by blast
    next
      fix q assume q: "q \<noteq> node" "get_next st q \<noteq> None"
      then have "q \<noteq> Some (Cell a)" using fresh_reads(1)[OF a_fresh] by auto
      with q g(3)[of q] show "get_next st' q = get_next st q" by (simp add: st3 ok st1)
    next
      fix q assume q: "get_value st q \<noteq> None"
      then have "q \<noteq> Some (Cell a)" using fresh_reads(2)[OF a_fresh] by auto
      with q g(4)[of q] show "get_value st' q = get_value st q" by (simp add: st3 ok st1)
    next
      show "dom (nodes st') = dom (nodes st) \<union> set (a # as)" using g(5) dom3 by auto
      show "set (a # as) \<inter> dom (nodes st) = {}" using g(6) dom3 a_fresh by auto
      show "0 \<notin> set (a # as)" using g(7) ok(3) by auto
      show "length (lists st') = length (lists st)" by (simp add: g(8) st3 ok st1)
    next
      fix l assume "l \<noteq> this"
      then show "get_size st' l = get_size st l" by (simp add: g(9) st3 ok st1)
    qed
    moreover have "ok \<longrightarrow> vals (nodes st') (a # as) = x # xs
        \<and> get_size st' this = Some (s + of_nat (length (x # xs)))"
      using r(3) get_value_SomeD[OF val_a] by (auto simp: add.assoc add.commute)
    moreover have "\<not> ok \<longrightarrow> length (a # as) < length (x # xs) \<and> \<not> serves alloc (nodes st')"
      using r(4) by simp
    ultimately show ?thesis
      using r(1) unfolding unfold by blast
  qed
qed

lemma nodes_eqI:
  assumes "\<And>a. get_next s (Some (Cell a)) = get_next t (Some (Cell a))"
    and "\<And>a. get_value s (Some (Cell a)) = get_value t (Some (Cell a))"
  shows "nodes s = nodes t"
  by (rule ext) (rule cell_ext[OF assms])

lemma get_next_Cell_nodes: "nodes s = nodes t \<Longrightarrow> get_next s (Some (Cell a)) = get_next t (Some (Cell a))"
  by (simp add: get_next_def)

lemma get_value_nodes: "nodes s = nodes t \<Longrightarrow> get_value s p = get_value t p"
  by (simp add: get_value_def split: option.splits ptr.splits)

lemma Clear_loop_effect:
  assumes "get_next st (Some (Sentinel l)) = Some p" "chain (nodes st) p as"
  shows "\<exists>st'. Clear_loop l st = Some (Inr ((), st'))
      \<and> (\<forall>q. get_next st' q = (if q = Some (Sentinel l) then Some None
                                else if (\<exists>a\<in>set as. q = Some (Cell a)) then None else get_next st q))
      \<and> nodes st' = (\<lambda>a. if a \<in> set as then None else nodes st a)
      \<and> (\<forall>k. get_size st' k = get_size st k)
      \<and> length (lists st') = length (lists st)"
  using assms
proof (induction as arbitrary: st p)
  case Nil
  then have "Clear_loop l st = Some (Inr ((), st))"
    by (subst Clear_loop.simps) simp
  with Nil show ?case by (intro exI[of _ st]) auto
next
  case (Cons a as)
  from Cons.prems(2) obtain n where n: "p = Some (Cell a)" "nodes st a = Some n"
    "chain (nodes st) (next_node n) as" by auto
  have a_notin: "a \<notin> set as" using chain_head_notin_tail[of "nodes st" a as] Cons.prems(2) n(1) by simp
  have gn: "get_next st (Some (Cell a)) = Some (next_node n)" using n by (simp add: get_next_def)
  then have "get_next st (Some (Cell a)) \<noteq> None" by simp
  then obtain st1 where st1: "delete_Node st (Some (Cell a)) = Some st1"
    "\<And>p. get_next st1 p = (if p = Some (Cell a) then None else get_next st p)"
    "\<And>p. get_value st1 p = (if p = Some (Cell a) then None else get_value st p)"
    "\<And>l. get_size st1 l = get_size st l"
    "lists st1 = lists st"
    "nodes st1 = (nodes st)(a := None)"
    by (rule delete_Node_effect) blast
  have "get_next st1 (Some (Sentinel l)) \<noteq> None" using Cons.prems(1) by (simp add: st1)
  then obtain st2 where st2: "set_next st1 (Some (Sentinel l)) (next_node n) = Some st2"
    "\<And>p'. get_next st2 p' = (if p' = Some (Sentinel l) then Some (next_node n) else get_next st1 p')"
    "\<And>p'. get_value st2 p' = get_value st1 p'"
    "\<And>l. get_size st2 l = get_size st1 l"
    "length (lists st2) = length (lists st1)"
    by (rule set_next_effect) blast
  have nodes2: "nodes st2 = (nodes st)(a := None)"
    unfolding st1(6)[symmetric] by (rule nodes_eqI) (simp_all add: st2)
  have unfold: "Clear_loop l st = Clear_loop l st2"
    by (subst Clear_loop.simps) (simp add: Cons.prems(1) n(1) gn st1 st2)
  have "chain (nodes st2) (next_node n) as"
    using n(3) a_notin by (simp add: nodes2 chain_upd_other)
  from Cons.IH[OF _ this, of ] st2(2)[of "Some (Sentinel l)"]
  obtain st' where st': "Clear_loop l st2 = Some (Inr ((), st'))"
    "\<And>q. get_next st' q = (if q = Some (Sentinel l) then Some None
                                else if (\<exists>a\<in>set as. q = Some (Cell a)) then None else get_next st2 q)"
    "nodes st' = (\<lambda>a. if a \<in> set as then None else nodes st2 a)"
    "\<And>k. get_size st' k = get_size st2 k"
    "length (lists st') = length (lists st2)"
    by auto
  show ?case
  proof (intro exI[of _ st'] conjI allI)
    show "Clear_loop l st = Some (Inr ((), st'))" by (simp add: unfold st')
    show "get_next st' q = (if q = Some (Sentinel l) then Some None
            else if (\<exists>b\<in>set (a # as). q = Some (Cell b)) then None else get_next st q)" for q
      by (auto simp: st' st2 st1)
    show "nodes st' = (\<lambda>b. if b \<in> set (a # as) then None else nodes st b)"
      by (auto simp: st' nodes2)
    show "get_size st' k = get_size st k" for k by (simp add: st' st2 st1)
    show "length (lists st') = length (lists st)" by (simp add: st' st2 st1)
  qed
qed

lemma Clear_effect:
  assumes "get_next st (Some (Sentinel l)) = Some p" "chain (nodes st) p as"
  shows "\<exists>st'. Clear st l = Some (Inr ((), st'))
      \<and> (\<forall>q. get_next st' q = (if q = Some (Sentinel l) then Some None
                                else if (\<exists>a\<in>set as. q = Some (Cell a)) then None else get_next st q))
      \<and> nodes st' = (\<lambda>a. if a \<in> set as then None else nodes st a)
      \<and> (\<forall>k. get_size st' k = (if k = l then Some 0 else get_size st k))
      \<and> length (lists st') = length (lists st)"
proof -
  from Clear_loop_effect[OF assms] obtain st1 where st1: "Clear_loop l st = Some (Inr ((), st1))"
    "\<And>q. get_next st1 q = (if q = Some (Sentinel l) then Some None
                                else if (\<exists>a\<in>set as. q = Some (Cell a)) then None else get_next st q)"
    "nodes st1 = (\<lambda>a. if a \<in> set as then None else nodes st a)"
    "\<And>k. get_size st1 k = get_size st k"
    "length (lists st1) = length (lists st)"
    by blast
  from assms(1) have "l < length (lists st1)"
    by (simp add: get_next_def st1(5) split: if_splits)
  then obtain st2 where st2: "set_size st1 l 0 = Some st2"
    "\<And>p. get_next st2 p = get_next st1 p"
    "\<And>p. get_value st2 p = get_value st1 p"
    "\<And>l'. get_size st2 l' = (if l' = l then Some 0 else get_size st1 l')"
    "length (lists st2) = length (lists st1)"
    "nodes st2 = nodes st1"
    by (rule set_size_effect) blast
  show ?thesis
    by (intro exI[of _ st2]) (simp add: Clear_def st1 st2)
qed

lemma head_read: "l < length (lists s) \<Longrightarrow> get_next s (Some (Sentinel l)) = Some (head_next_node (lists s ! l))"
  by (simp add: get_next_def)

lemma size_read: "l < length (lists s) \<Longrightarrow> get_size s l = Some (m_size (lists s ! l))"
  by (simp add: get_size_def)

lemma list_entry_eqI:
  assumes "l < length (lists s)" "l < length (lists t)"
    and "get_next s (Some (Sentinel l)) = get_next t (Some (Sentinel l))"
    and "get_size s l = get_size t l"
  shows "lists s ! l = lists t ! l"
  using assms by (intro sll_eqI) (simp_all add: get_next_def get_size_def)

lemma grown_old_cells:
  assumes "grown this st node st' as" "node = Some (Sentinel l)" "a \<notin> set as"
  shows "nodes st' a = nodes st a"
proof (cases "nodes st a")
  case None
  with grownD(4)[OF assms(1)] assms(3) have "a \<notin> dom (nodes st')" by auto
  with None show ?thesis by auto
next
  case (Some n)
  then have v: "get_next st (Some (Cell a)) \<noteq> None" "get_value st (Some (Cell a)) \<noteq> None"
    by (simp_all add: get_next_def get_value_def)
  have "Some (Cell a) \<noteq> node" using assms(2) by simp
  from grownD(2)[OF assms(1) this v(1)] grownD(3)[OF assms(1) v(2)]
  show ?thesis by (rule cell_ext)
qed

lemma grown_old_lists:
  assumes "grown this st (Some (Sentinel this)) st' as" "l < length (lists st)" "l \<noteq> this"
  shows "lists st' ! l = lists st ! l"
proof (rule list_entry_eqI)
  from assms(2) grownD(7)[OF assms(1)] show "l < length (lists st')" "l < length (lists st)"
    by simp_all
  from assms(2) have "get_next st (Some (Sentinel l)) \<noteq> None" by (simp add: get_next_def)
  moreover have "Some (Sentinel l) \<noteq> Some (Sentinel this)" using assms(3) by simp
  ultimately show "get_next st' (Some (Sentinel l)) = get_next st (Some (Sentinel l))"
    using grownD(2)[OF assms(1)] by blast
  from assms(3) show "get_size st' l = get_size st l" by (rule grownD(8)[OF assms(1)])
qed

lemma grown_card:
  assumes "grown this st node st' as"
  shows "dom (nodes st) \<subseteq> dom (nodes st')"
    and "card (dom (nodes st')) = card (dom (nodes st)) + length as"
proof -
  from grownD(1)[OF assms] obtain nxt where "chain (nodes st') nxt as" by blast
  then have d: "distinct as" by (rule chain_distinct)
  from grownD(4)[OF assms] show "dom (nodes st) \<subseteq> dom (nodes st')" by simp
  have "card (dom (nodes st) \<union> set as) = card (dom (nodes st)) + card (set as)"
    using grownD(5)[OF assms] by (intro card_Un_disjoint) auto
  with d show "card (dom (nodes st')) = card (dom (nodes st)) + length as"
    by (simp add: grownD(4)[OF assms] distinct_card)
qed

lemma leave_scope_effect:
  assumes "length (lists st) = Suc tmp" "chain (nodes st) (head_next_node (lists st ! tmp)) as"
  shows "leave_scope st tmp = Some (Inr ((), \<lparr>lists = butlast (lists st),
            nodes = (\<lambda>a. if a \<in> set as then None else nodes st a)\<rparr>))"
proof -
  from assms(1) have hd: "get_next st (Some (Sentinel tmp)) = Some (head_next_node (lists st ! tmp))"
    by (simp add: get_next_def)
  from Clear_effect[OF hd assms(2)] obtain st1 where st1: "Clear st tmp = Some (Inr ((), st1))"
    "\<And>q. get_next st1 q = (if q = Some (Sentinel tmp) then Some None
                                else if (\<exists>a\<in>set as. q = Some (Cell a)) then None else get_next st q)"
    "nodes st1 = (\<lambda>a. if a \<in> set as then None else nodes st a)"
    "\<And>k. get_size st1 k = (if k = tmp then Some 0 else get_size st k)"
    "length (lists st1) = length (lists st)"
    by blast
  have "butlast (lists st1) = butlast (lists st)"
  proof (rule nth_equalityI)
    show "length (butlast (lists st1)) = length (butlast (lists st))" by (simp add: st1)
    fix i assume "i < length (butlast (lists st1))"
    then have i: "i < tmp" using assms(1) by (simp add: st1)
    then have "lists st1 ! i = lists st ! i"
      using assms(1) by (intro list_entry_eqI) (simp_all add: st1)
    with i assms(1) show "butlast (lists st1) ! i = butlast (lists st) ! i"
      by (simp add: nth_butlast st1)
  qed
  then have "release st1 = \<lparr>lists = butlast (lists st),
            nodes = (\<lambda>a. if a \<in> set as then None else nodes st a)\<rparr>"
    by (simp add: release_def st1(3))
  then show ?thesis by (simp add: leave_scope_def dtor_def st1(1))
qed

lemma ctor_body:
  assumes "default_ctor st = (this, st0)" "default_ctor st0 = (tmp, st1)"
    and r: "r = Some (if ok then Inr ((), st2) else Inl (bad_alloc st2))"
    and g: "grown tmp st1 (Some (Sentinel tmp)) st2 as"
    and v: "ok \<longrightarrow> vals (nodes st2) as = xs \<and> get_size st2 tmp = Some (of_nat (length xs))"
  shows "if ok then (\<exists>st'. finish_ctor r this tmp = Some (Inr (this, st')) \<and> built st st' as xs)
         else finish_ctor r this tmp = Some (Inl (bad_alloc st))"
proof -
  let ?n = "length (lists st)"
  let ?e = "\<lparr>head_next_node = None, m_size = 0\<rparr>"
  from assms(1,2) have ids: "this = ?n" "tmp = Suc ?n"
    and l1: "lists st1 = lists st @ [?e, ?e]" and n1: "nodes st1 = nodes st"
    by (auto simp: default_ctor_def)
  from grownD(1)[OF g] obtain nxt where
    nxt: "get_next st2 (Some (Sentinel tmp)) = Some nxt" "chain (nodes st2) nxt as"
    by blast
  have len2: "length (lists st2) = Suc (Suc ?n)"
    and fresh: "set as \<inter> dom (nodes st) = {}" "0 \<notin> set as"
    using grownD(5,6,7)[OF g] by (simp_all add: l1 n1)
  have old: "a \<notin> set as \<Longrightarrow> nodes st2 a = nodes st a" for a
    using grown_old_cells[OF g refl] by (simp add: n1)
  have oldl: "l < Suc ?n \<Longrightarrow> lists st2 ! l = (lists st @ [?e]) ! l" for l
    using grown_old_lists[OF g, of l] by (simp add: l1 ids nth_append)
  have hd2: "head_next_node (lists st2 ! tmp) = nxt"
    using nxt(1) len2 by (simp add: get_next_def ids)
  show ?thesis
  proof (cases ok)
    case False
    have "chain (nodes st2) (head_next_node (lists st2 ! tmp)) as" by (simp add: hd2 nxt)
    from leave_scope_effect[OF _ this] len2
    have ls: "leave_scope st2 tmp = Some (Inr ((), \<lparr>lists = butlast (lists st2),
            nodes = (\<lambda>a. if a \<in> set as then None else nodes st2 a)\<rparr>))"
      by (simp add: ids)
    have "butlast (butlast (lists st2)) = lists st"
    proof (rule nth_equalityI)
      show "length (butlast (butlast (lists st2))) = length (lists st)" by (simp add: len2)
      fix i assume "i < length (butlast (butlast (lists st2)))"
      then have i: "i < ?n" by (simp add: len2)
      with oldl[of i] len2 show "butlast (butlast (lists st2)) ! i = lists st ! i"
        by (simp add: nth_butlast nth_append)
    qed
    moreover have "(\<lambda>a. if a \<in> set as then None else nodes st2 a) = nodes st"
    proof
      fix a
      have "a \<in> set as \<Longrightarrow> nodes st a = None" using fresh(1) by blast
      with old[of a] show "(if a \<in> set as then None else nodes st2 a) = nodes st a" by simp
    qed
    ultimately have "release \<lparr>lists = butlast (lists st2),
            nodes = (\<lambda>a. if a \<in> set as then None else nodes st2 a)\<rparr> = st"
      by (simp add: release_def)
    with False show ?thesis
      by (simp add: r finish_ctor_def unwind_ctor_def ls)
  next
    case True
    with v have vs: "vals (nodes st2) as = xs" and sz: "m_size (lists st2 ! tmp) = of_nat (length xs)"
      using len2 by (simp_all add: get_size_def ids)
    let ?l3 = "(lists st2)[this := lists st2 ! tmp, tmp := lists st2 ! this]"
    let ?st3 = "st2\<lparr>lists := ?l3\<rparr>"
    have sw: "swap st2 this tmp = Inr ((), ?st3)"
      by (rule swap_valid) (simp_all add: len2 ids)
    have tmp3: "lists ?st3 ! tmp = ?e"
      using oldl[of this] len2 by (simp add: ids nth_append)
    have "chain (nodes ?st3) (head_next_node (lists ?st3 ! tmp)) []"
      unfolding tmp3 by simp
    from leave_scope_effect[OF _ this] len2
    have ls: "leave_scope ?st3 tmp = Some (Inr ((), \<lparr>lists = butlast ?l3, nodes = nodes st2\<rparr>))"
      by (simp add: ids)
    have bl: "butlast ?l3 = lists st @ [\<lparr>head_next_node = nxt, m_size = of_nat (length xs)\<rparr>]"
    proof (rule nth_equalityI)
      show "length (butlast ?l3) = length (lists st @ [\<lparr>head_next_node = nxt, m_size = of_nat (length xs)\<rparr>])"
        by (simp add: len2)
      fix i assume "i < length (butlast ?l3)"
      then have i: "i < Suc ?n" by (simp add: len2)
      show "butlast ?l3 ! i = (lists st @ [\<lparr>head_next_node = nxt, m_size = of_nat (length xs)\<rparr>]) ! i"
      proof (cases "i = ?n")
        case True
        have "lists st2 ! tmp = \<lparr>head_next_node = nxt, m_size = of_nat (length xs)\<rparr>"
          using hd2 sz by (intro sll_eqI) simp_all
        with True len2 show ?thesis by (simp add: nth_butlast ids nth_list_update)
      next
        case False
        with i have "i < ?n" by simp
        with oldl[of i] len2 show ?thesis
          by (simp add: nth_butlast ids nth_list_update nth_append)
      qed
    qed
    have "built st \<lparr>lists = butlast ?l3, nodes = nodes st2\<rparr> as xs"
      unfolding built_def
    proof (intro conjI allI impI)
      show "\<exists>p. lists \<lparr>lists = butlast ?l3, nodes = nodes st2\<rparr>
           = lists st @ [\<lparr>head_next_node = p, m_size = of_nat (length xs)\<rparr>]
          \<and> chain (nodes \<lparr>lists = butlast ?l3, nodes = nodes st2\<rparr>) p as"
        using nxt(2) bl by (intro exI[of _ nxt]) simp
      show "vals (nodes \<lparr>lists = butlast ?l3, nodes = nodes st2\<rparr>) as = xs" using vs by simp
      show "nodes \<lparr>lists = butlast ?l3, nodes = nodes st2\<rparr> a = nodes st a" if "a \<notin> set as" for a
        using old[OF that] by simp
      show "set as \<inter> dom (nodes st) = {}" "0 \<notin> set as" using fresh by auto
    qed
    then have "\<exists>st'. finish_ctor r this tmp = Some (Inr (this, st')) \<and> built st st' as xs"
      unfolding r finish_ctor_def using True sw ls by (intro exI[of _ "\<lparr>lists = butlast ?l3, nodes = nodes st2\<rparr>"]) simp
    with True show ?thesis by simp
  qed
qed

lemma range_of_array:
  "i \<le> length V \<Longrightarrow> range_of (array_deref V) (array_inc V) S i (length V) (drop i V)"
proof (induction "length V - i" arbitrary: i)
  case 0
  then show ?case by simp
next
  case (Suc n)
  then have i: "i < length V" by simp
  then have d: "drop i V = V ! i # drop (Suc i) V" by (simp add: Cons_nth_drop_Suc)
  from Suc(2) i have "range_of (array_deref V) (array_inc V) S (Suc i) (length V) (drop (Suc i) V)"
    by (intro Suc(1)) simp_all
  with i show ?case
    unfolding d by (auto simp: array_deref_def array_inc_def)
qed

lemma range_of_chain:
  "chain h p bs \<Longrightarrow> set bs \<subseteq> F \<Longrightarrow>
   range_of it_deref it_pre_inc (agree F h) (BasicIterator p) end_it (vals h bs)"
proof (induction bs arbitrary: p)
  case Nil
  then show ?case by (simp add: end_it_def)
next
  case (Cons b bs)
  then obtain n where n: "p = Some (Cell b)" "h b = Some n" "chain h (next_node n) bs" by auto
  from Cons.IH[OF n(3)] Cons.prems(2)
  have "range_of it_deref it_pre_inc (agree F h) (BasicIterator (next_node n)) end_it (vals h bs)"
    by simp
  moreover have "\<forall>s\<in>agree F h. it_deref s (BasicIterator p) = Some (value n)
      \<and> it_pre_inc s (BasicIterator p) = Some (BasicIterator (next_node n))"
    using n Cons.prems(2) by (auto simp: agree_def it_deref_def get_value_def it_pre_inc_def get_next_def)
  ultimately show ?case
    using n by (auto simp: end_it_def)
qed

lemma built_iterate:
  assumes "built st st' as xs"
  shows "iterate st' (length (lists st)) = Some (Inr xs)"
    and "GetSize st' (length (lists st)) = Some (of_nat (length xs))"
    and "unat (of_nat (length xs) :: 64 word) = length xs"
    and "length (lists st') = Suc (length (lists st))"
proof -
  from assms obtain p where p:
    "lists st' = lists st @ [\<lparr>head_next_node = p, m_size = of_nat (length xs)\<rparr>]"
    "chain (nodes st') p as" and v: "vals (nodes st') as = xs" and z: "0 \<notin> set as"
    by (auto simp: built_def)
  show "iterate st' (length (lists st)) = Some (Inr xs)"
    unfolding iterate_iff using p v by (auto simp: nth_append)
  show "GetSize st' (length (lists st)) = Some (of_nat (length xs))"
    by (simp add: GetSize_def get_size_def p nth_append)
  have "length xs = length as" using v by (simp add: vals_def[symmetric] flip: length_vals[of "nodes st'"])
  moreover have "length as < 2 ^ 64"
    using chain_distinct[OF p(2)] z by (rule length_addrs_bound)
  ultimately show "unat (of_nat (length xs) :: 64 word) = length xs"
    by (simp add: unat_of_nat)
  show "length (lists st') = Suc (length (lists st))" by (simp add: p)
qed

lemma ctor_initializer_list_effect:
  "(\<exists>st' as. ctor_initializer_list alloc st V = Some (Inr (length (lists st), st')) \<and> built st st' as V)
   \<or> (ctor_initializer_list alloc st V = Some (Inl (bad_alloc st))
       \<and> (\<exists>h. dom (nodes st) \<subseteq> dom h \<and> card (dom h) < card (dom (nodes st)) + length V
              \<and> \<not> serves alloc h))"
proof -
  obtain this st0 tmp st1 where d: "default_ctor st = (this, st0)" "default_ctor st0 = (tmp, st1)"
    by (metis surj_pair)
  then have ids: "this = length (lists st)" "tmp = Suc (length (lists st))"
    and l1: "lists st1 = lists st @ [\<lparr>head_next_node = None, m_size = 0\<rparr>, \<lparr>head_next_node = None, m_size = 0\<rparr>]"
    and n1: "nodes st1 = nodes st"
    by (auto simp: default_ctor_def)
  have "\<exists>st2 as ok.
           Init_loop (array_deref V) (array_inc V) alloc tmp (length V) st1 (Some (Sentinel tmp)) 0
             = Some (if ok then Inr ((), st2) else Inl (bad_alloc st2))
         \<and> grown tmp st1 (Some (Sentinel tmp)) st2 as
         \<and> (ok \<longrightarrow> vals (nodes st2) as = V \<and> get_size st2 tmp = Some (0 + of_nat (length V)))
         \<and> (\<not> ok \<longrightarrow> length as < length V \<and> \<not> serves alloc (nodes st2))"
  proof (rule Init_loop_effect[where F = "{}" and ?h0.0 = "nodes st1"])
    show "range_of (array_deref V) (array_inc V) (agree {} (nodes st1)) 0 (length V) V"
      using range_of_array[of 0 V] by simp
    show "st1 \<in> agree {} (nodes st1)" by (simp add: agree_def)
    show "get_size st1 tmp = Some 0" by (simp add: get_size_def l1 ids nth_append)
    show "get_next st1 (Some (Sentinel tmp)) = Some None" by (simp add: get_next_def l1 ids nth_append)
  qed simp_all
  then obtain st2 as ok where
    r: "Init (array_deref V) (array_inc V) alloc st1 tmp 0 (length V)
             = Some (if ok then Inr ((), st2) else Inl (bad_alloc st2))"
    and g: "grown tmp st1 (Some (Sentinel tmp)) st2 as"
    and v: "ok \<longrightarrow> vals (nodes st2) as = V \<and> get_size st2 tmp = Some (of_nat (length V))"
    and f: "\<not> ok \<longrightarrow> length as < length V \<and> \<not> serves alloc (nodes st2)"
    unfolding Init_def by auto
  show ?thesis
  proof (cases ok)
    case True
    with ctor_body[OF d r g v] show ?thesis
      by (auto simp: ctor_initializer_list_def d ids)
  next
    case False
    with ctor_body[OF d r g v] have "ctor_initializer_list alloc st V = Some (Inl (bad_alloc st))"
      by (simp add: ctor_initializer_list_def d)
    moreover have "dom (nodes st) \<subseteq> dom (nodes st2)
        \<and> card (dom (nodes st2)) < card (dom (nodes st)) + length V \<and> \<not> serves alloc (nodes st2)"
      using grown_card[OF g] f False by (simp add: n1)
    ultimately show ?thesis by blast
  qed
qed

lemma ctor_copy_effect:
  assumes "other < length (lists st)" "chain (nodes st) (head_next_node (lists st ! other)) bs"
  shows "(\<exists>st' as. ctor_copy alloc st other = Some (Inr (length (lists st), st'))
            \<and> built st st' as (vals (nodes st) bs))
   \<or> (ctor_copy alloc st other = Some (Inl (bad_alloc st))
       \<and> (\<exists>h. dom (nodes st) \<subseteq> dom h \<and> card (dom h) < card (dom (nodes st)) + length bs
              \<and> \<not> serves alloc h))"
proof -
  obtain this st0 tmp st1 where d: "default_ctor st = (this, st0)" "default_ctor st0 = (tmp, st1)"
    by (metis surj_pair)
  then have ids: "this = length (lists st)" "tmp = Suc (length (lists st))"
    and l1: "lists st1 = lists st @ [\<lparr>head_next_node = None, m_size = 0\<rparr>, \<lparr>head_next_node = None, m_size = 0\<rparr>]"
    and n1: "nodes st1 = nodes st"
    by (auto simp: default_ctor_def)
  let ?b = "BasicIterator (head_next_node (lists st ! other))"
  have b: "begin_it st1 other = Some ?b"
    using assms(1) by (simp add: begin_it_def get_next_def l1 nth_append)
  have "\<exists>st2 as ok.
           Init_loop it_deref it_pre_inc alloc tmp end_it st1 (Some (Sentinel tmp)) ?b
             = Some (if ok then Inr ((), st2) else Inl (bad_alloc st2))
         \<and> grown tmp st1 (Some (Sentinel tmp)) st2 as
         \<and> (ok \<longrightarrow> vals (nodes st2) as = vals (nodes st) bs
                \<and> get_size st2 tmp = Some (0 + of_nat (length (vals (nodes st) bs))))
         \<and> (\<not> ok \<longrightarrow> length as < length (vals (nodes st) bs) \<and> \<not> serves alloc (nodes st2))"
  proof (rule Init_loop_effect[where F = "set bs" and ?h0.0 = "nodes st"])
    show "range_of it_deref it_pre_inc (agree (set bs) (nodes st)) ?b end_it (vals (nodes st) bs)"
      by (rule range_of_chain[OF assms(2)]) simp
    show "st1 \<in> agree (set bs) (nodes st)" by (simp add: agree_def n1)
    show "set bs \<subseteq> dom (nodes st1)" using chain_in_dom[OF assms(2)] by (auto simp: n1)
    show "get_size st1 tmp = Some 0" by (simp add: get_size_def l1 ids nth_append)
    show "get_next st1 (Some (Sentinel tmp)) = Some None" by (simp add: get_next_def l1 ids nth_append)
  qed simp_all
  then obtain st2 as ok where
    r: "Init it_deref it_pre_inc alloc st1 tmp ?b end_it
             = Some (if ok then Inr ((), st2) else Inl (bad_alloc st2))"
    and g: "grown tmp st1 (Some (Sentinel tmp)) st2 as"
    and v: "ok \<longrightarrow> vals (nodes st2) as = vals (nodes st) bs
              \<and> get_size st2 tmp = Some (of_nat (length (vals (nodes st) bs)))"
    and f: "\<not> ok \<longrightarrow> length as < length bs \<and> \<not> serves alloc (nodes st2)"
    unfolding Init_def by auto
  show ?thesis
  proof (cases ok)
    case True
    with ctor_body[OF d r g v] show ?thesis
      by (auto simp: ctor_copy_def d b ids)
  next
    case False
    with ctor_body[OF d r g v] have "ctor_copy alloc st other = Some (Inl (bad_alloc st))"
      by (simp add: ctor_copy_def d b)
    moreover have "dom (nodes st) \<subseteq> dom (nodes st2)
        \<and> card (dom (nodes st2)) < card (dom (nodes st)) + length bs \<and> \<not> serves alloc (nodes st2)"
      using grown_card[OF g] f False by (simp add: n1)
    ultimately show ?thesis by blast
  qed
qed


text \<open>The equations that run the constructors on a concrete store.\<close>

lemmas run_defs = first_free_def ctor_initializer_list_def default_ctor_def finish_ctor_def Init_def
  Init_loop.simps inc_size_def get_size_def set_size_def array_deref_def array_inc_def new_Node_def
  set_next_def get_next_def swap_def leave_scope_def dtor_def Clear_def Clear_loop.simps release_def
  delete_Node_def unwind_ctor_def

lemma chain_split:
  assumes "chain h p as" "k \<le> length as"
  obtains r where "path h p (take k as) r" "chain h r (drop k as)"
proof -
  from assms(1) have "chain h p (take k as @ drop k as)" by simp
  then show ?thesis using that unfolding chain_append by blast
qed

lemma path_last:
  "path h p (as @ [b]) r \<longleftrightarrow> (\<exists>n. path h p as (Some (Cell b)) \<and> h b = Some n \<and> next_node n = r)"
  by (auto simp: path_append split: option.splits)

lemma vals_append [simp]: "vals h (as @ bs) = vals h as @ vals h bs"
  by (simp add: vals_def)

lemma vals_take: "vals h (take k as) = take k (vals h as)"
  by (simp add: vals_def take_map)

lemma vals_drop: "vals h (drop k as) = drop k (vals h as)"
  by (simp add: vals_def drop_map)

text \<open>Linking a new node in front of a chain, and after one of its nodes.\<close>

lemma chain_insert_front:
  assumes "chain h p as" "a \<notin> set as"
  shows "chain (h(a \<mapsto> \<lparr>value = v, next_node = p\<rparr>)) (Some (Cell a)) (a # as)"
    and "vals (h(a \<mapsto> \<lparr>value = v, next_node = p\<rparr>)) (a # as) = v # vals h as"
  using assms by (simp_all add: chain_upd_other vals_upd_other)

lemma chain_insert_after:
  fixes v :: 'a
  assumes c: "chain h p as" and k: "k < length as" and a: "a \<notin> set as"
    and n: "h (as ! k) = Some n"
  defines "h' \<equiv> h(a \<mapsto> \<lparr>value = v, next_node = next_node n\<rparr>, as ! k \<mapsto> n\<lparr>next_node := Some (Cell a)\<rparr>)"
  shows "chain h' p (take (Suc k) as @ a # drop (Suc k) as)"
    and "vals h' (take (Suc k) as @ a # drop (Suc k) as)
           = take (Suc k) (vals h as) @ v # drop (Suc k) (vals h as)"
proof -
  let ?b = "as ! k"
  have d: "distinct as" by (rule chain_distinct[OF c])
  have split: "as = take k as @ ?b # drop (Suc k) as" using k by (simp add: id_take_nth_drop)
  have tk: "take (Suc k) as = take k as @ [?b]" using k by (simp add: take_Suc_conv_app_nth)
  have b_pre: "?b \<notin> set (take k as)" and b_post: "?b \<notin> set (drop (Suc k) as)"
    using d split by (metis distinct_append distinct.simps(2) not_distinct_conv_prefix disjoint_iff list.set_intros(1))+
  have a_pre: "a \<notin> set (take k as)" and a_post: "a \<notin> set (drop (Suc k) as)"
    using a by (auto dest: in_set_takeD in_set_dropD)
  have ab: "a \<noteq> ?b" using a k by auto
  from c split have "chain h p (take k as @ ?b # drop (Suc k) as)" by simp
  then obtain r where r: "path h p (take k as) r" "chain h r (?b # drop (Suc k) as)"
    unfolding chain_append by blast
  with n have r': "r = Some (Cell ?b)" "chain h (next_node n) (drop (Suc k) as)" by auto
  have 1: "path h' p (take k as) (Some (Cell ?b))"
    unfolding h'_def using r(1) r'(1) a_pre b_pre by (simp add: path_upd_other)
  have 2: "chain h' (next_node n) (drop (Suc k) as)"
    unfolding h'_def using r'(2) a_post b_post by (simp add: chain_upd_other)
  have 3: "h' ?b = Some (n\<lparr>next_node := Some (Cell a)\<rparr>)" "h' a = Some \<lparr>value = v, next_node = next_node n\<rparr>"
    using ab by (simp_all add: h'_def)
  show "chain h' p (take (Suc k) as @ a # drop (Suc k) as)"
    unfolding tk chain_append append_assoc
    using 1 2 3 by (intro exI[of _ "Some (Cell ?b)"]) simp
  have "vals h' (take k as) = vals h (take k as)" "vals h' (drop (Suc k) as) = vals h (drop (Suc k) as)"
    unfolding h'_def using a_pre b_pre a_post b_post by (simp_all add: vals_upd_other)
  moreover have "value (the (h' ?b)) = value (the (h ?b))" using 3 n by simp
  ultimately show "vals h' (take (Suc k) as @ a # drop (Suc k) as)
           = take (Suc k) (vals h as) @ v # drop (Suc k) (vals h as)"
    using 3 k unfolding tk by (simp add: vals_take vals_drop take_Suc_conv_app_nth vals_def[of h as])
qed

text \<open>Unlinking the first node of a chain, and the node after one of its nodes.\<close>

lemma chain_erase_front:
  assumes "chain h p (a # as)" "h a = Some n"
  shows "chain (h(a := None)) (next_node n) as" "vals (h(a := None)) as = vals h as"
proof -
  have "a \<notin> set as" using chain_head_notin_tail[of h a as] assms(1) by simp
  with assms show "chain (h(a := None)) (next_node n) as" "vals (h(a := None)) as = vals h as"
    by (simp_all add: chain_upd_other vals_upd_other)
qed

lemma chain_erase_after:
  assumes c: "chain h p as" and k: "Suc k < length as"
    and n: "h (as ! k) = Some n" and m: "h (as ! Suc k) = Some m"
  defines "h' \<equiv> (h(as ! Suc k := None))(as ! k \<mapsto> n\<lparr>next_node := next_node m\<rparr>)"
  shows "chain h' p (take (Suc k) as @ drop (Suc (Suc k)) as)"
    and "vals h' (take (Suc k) as @ drop (Suc (Suc k)) as)
           = take (Suc k) (vals h as) @ drop (Suc (Suc k)) (vals h as)"
    and "next_node n = Some (Cell (as ! Suc k))"
proof -
  let ?b = "as ! k" and ?c = "as ! Suc k"
  have d: "distinct as" by (rule chain_distinct[OF c])
  have split: "as = take k as @ ?b # ?c # drop (Suc (Suc k)) as"
    using k by (metis Cons_nth_drop_Suc Suc_lessD id_take_nth_drop)
  have tk: "take (Suc k) as = take k as @ [?b]" using k by (simp add: take_Suc_conv_app_nth)
  from d have d': "distinct (take k as @ ?b # ?c # drop (Suc (Suc k)) as)" using split by simp
  then have b_pre: "?b \<notin> set (take k as)" and b_post: "?b \<notin> set (drop (Suc (Suc k)) as)"
    and c_pre: "?c \<notin> set (take k as)" and c_post: "?c \<notin> set (drop (Suc (Suc k)) as)"
    and bc: "?b \<noteq> ?c"
    by auto
  from c split have "chain h p (take k as @ ?b # ?c # drop (Suc (Suc k)) as)" by simp
  then obtain r where r: "path h p (take k as) r" "chain h r (?b # ?c # drop (Suc (Suc k)) as)"
    unfolding chain_append by blast
  with n m have r': "r = Some (Cell ?b)" "next_node n = Some (Cell ?c)"
    "chain h (next_node m) (drop (Suc (Suc k)) as)" by auto
  show "next_node n = Some (Cell ?c)" by (rule r'(2))
  have 1: "path h' p (take k as) (Some (Cell ?b))"
    unfolding h'_def using r(1) r'(1) c_pre b_pre by (simp add: path_upd_other)
  have 2: "chain h' (next_node m) (drop (Suc (Suc k)) as)"
    unfolding h'_def using r'(3) c_post b_post by (simp add: chain_upd_other)
  have 3: "h' ?b = Some (n\<lparr>next_node := next_node m\<rparr>)"
    by (simp add: h'_def)
  show "chain h' p (take (Suc k) as @ drop (Suc (Suc k)) as)"
    unfolding tk chain_append append_assoc
    using 1 2 3 by (intro exI[of _ "Some (Cell ?b)"]) simp
  have "vals h' (take k as) = vals h (take k as)"
    "vals h' (drop (Suc (Suc k)) as) = vals h (drop (Suc (Suc k)) as)"
    unfolding h'_def using c_pre b_pre c_post b_post by (simp_all add: vals_upd_other)
  moreover have "value (the (h' ?b)) = value (the (h ?b))" using 3 n by simp
  ultimately show "vals h' (take (Suc k) as @ drop (Suc (Suc k)) as)
           = take (Suc k) (vals h as) @ drop (Suc (Suc k)) (vals h as)"
    using k unfolding tk by (simp add: vals_take vals_drop take_Suc_conv_app_nth vals_def[of h as])
qed

lemma advance_cells:
  "chain (nodes st) p as \<Longrightarrow>
   advance st (BasicIterator p) k =
     (if k < length as then Some (BasicIterator (Some (Cell (as ! k))))
      else if k = length as then Some (BasicIterator None) else None)"
proof (induction as arbitrary: p k)
  case Nil
  then show ?case by (cases k) (simp_all add: it_pre_inc_def get_next_def)
next
  case (Cons a as)
  then obtain n where n: "p = Some (Cell a)" "nodes st a = Some n" "chain (nodes st) (next_node n) as"
    by auto
  show ?case
  proof (cases k)
    case 0
    with n show ?thesis by simp
  next
    case (Suc j)
    with Cons.IH[OF n(3), of j] n show ?thesis
      by (simp add: it_pre_inc_def get_next_def)
  qed
qed

lemma advance_before_begin:
  assumes "this < length (lists st)" "chain (nodes st) (head_next_node (lists st ! this)) as"
  shows "advance st (before_begin this) k =
     (if k = 0 then Some (before_begin this)
      else if k \<le> length as then Some (BasicIterator (Some (Cell (as ! (k - 1)))))
      else if k = Suc (length as) then Some end_it else None)"
proof (cases k)
  case 0
  then show ?thesis by simp
next
  case (Suc j)
  with advance_cells[OF assms(2), of j] assms(1) show ?thesis
    by (auto simp: before_begin_def it_pre_inc_def get_next_def end_it_def)
qed

lemma sll_all_upd:
  fixes L :: SingleLinkedList
  shows "L\<lparr>head_next_node := p, m_size := s\<rparr> = \<lparr>head_next_node = p, m_size = s\<rparr>"
  by (cases L) simp

lemma store_all_upd:
  fixes st :: "'a store"
  shows "st\<lparr>nodes := N, lists := Ls\<rparr> = \<lparr>lists = Ls, nodes = N\<rparr>"
  by (cases st) simp

lemma InsertAfter_before_begin:
  assumes "this < length (lists st)"
  obtains (fail) "InsertAfter alloc st this (before_begin this) v = Inl (bad_alloc st)"
  | (ok) a where "nodes st a = None" "a \<noteq> 0"
      "InsertAfter alloc st this (before_begin this) v =
         Inr (BasicIterator (Some (Cell a)),
              \<lparr>lists = (lists st)[this := \<lparr>head_next_node = Some (Cell a),
                                            m_size = m_size (lists st ! this) + 1\<rparr>],
               nodes = (nodes st)(a \<mapsto> \<lparr>value = v, next_node = head_next_node (lists st ! this)\<rparr>)\<rparr>)"
proof (cases "alloc (nodes st)")
  case None
  with assms show ?thesis
    by (intro fail) (simp add: InsertAfter_def before_begin_def get_next_def new_Node_def)
next
  case (Some a)
  show ?thesis
  proof (cases "a = 0 \<or> nodes st a \<noteq> None")
    case True
    with Some assms show ?thesis
      by (intro fail) (auto simp: InsertAfter_def before_begin_def get_next_def new_Node_def)
  next
    case False
    with Some assms show ?thesis
      by (intro ok[of a])
         (auto simp: InsertAfter_def before_begin_def get_next_def new_Node_def set_next_def
            inc_size_def get_size_def set_size_def sll_all_upd store_all_upd)
  qed
qed

lemma InsertAfter_cell:
  assumes "this < length (lists st)" "nodes st b = Some n"
  obtains (fail) "InsertAfter alloc st this (BasicIterator (Some (Cell b))) v = Inl (bad_alloc st)"
  | (ok) a where "nodes st a = None" "a \<noteq> 0"
      "InsertAfter alloc st this (BasicIterator (Some (Cell b))) v =
         Inr (BasicIterator (Some (Cell a)),
              \<lparr>lists = (lists st)[this := (lists st ! this)\<lparr>m_size := m_size (lists st ! this) + 1\<rparr>],
               nodes = (nodes st)(a \<mapsto> \<lparr>value = v, next_node = next_node n\<rparr>,
                                  b \<mapsto> n\<lparr>next_node := Some (Cell a)\<rparr>)\<rparr>)"
proof (cases "alloc (nodes st)")
  case None
  with assms show ?thesis
    by (intro fail) (simp add: InsertAfter_def get_next_def new_Node_def)
next
  case (Some a)
  show ?thesis
  proof (cases "a = 0 \<or> nodes st a \<noteq> None")
    case True
    with Some assms show ?thesis
      by (intro fail) (auto simp: InsertAfter_def get_next_def new_Node_def)
  next
    case False
    with Some assms have "a \<noteq> b" by auto
    with False Some assms show ?thesis
      by (intro ok[of a])
         (auto simp: InsertAfter_def get_next_def new_Node_def set_next_def
            inc_size_def get_size_def set_size_def sll_all_upd store_all_upd)
  qed
qed

lemma PushFront_eq_InsertAfter:
  "PushFront alloc st this v =
     (case InsertAfter alloc st this (before_begin this) v of
        Inl e \<Rightarrow> Inl e | Inr (it, st') \<Rightarrow> Inr ((), st'))"
  by (auto simp: PushFront_def InsertAfter_def before_begin_def get_next_def set_next_def
      new_Node_def inc_size_def get_size_def set_size_def split: option.splits sum.splits)

lemma EraseAfter_before_begin:
  assumes "this < length (lists st)" "head_next_node (lists st ! this) = Some (Cell a)"
    "nodes st a = Some n"
  shows "EraseAfter st this (before_begin this) =
         Inr (BasicIterator (next_node n),
              \<lparr>lists = (lists st)[this := \<lparr>head_next_node = next_node n,
                                            m_size = m_size (lists st ! this) - 1\<rparr>],
               nodes = (nodes st)(a := None)\<rparr>)"
  using assms
  by (simp add: EraseAfter_def before_begin_def get_next_def delete_Node_def set_next_def
      dec_size_def get_size_def set_size_def sll_all_upd store_all_upd)

lemma PopFront_eq_EraseAfter:
  "PopFront st this =
     (case EraseAfter st this (before_begin this) of
        Inl e \<Rightarrow> Inl e | Inr (it, st') \<Rightarrow> Inr ((), st'))"
  by (auto simp: PopFront_def EraseAfter_def before_begin_def get_next_def set_next_def
      delete_Node_def dec_size_def get_size_def set_size_def split: option.splits sum.splits)

lemma EraseAfter_cell:
  assumes "this < length (lists st)" "nodes st b = Some n" "next_node n = Some (Cell c)"
    "nodes st c = Some m" "b \<noteq> c"
  shows "EraseAfter st this (BasicIterator (Some (Cell b))) =
         Inr (BasicIterator (next_node m),
              \<lparr>lists = (lists st)[this := (lists st ! this)\<lparr>m_size := m_size (lists st ! this) - 1\<rparr>],
               nodes = ((nodes st)(c := None))(b \<mapsto> n\<lparr>next_node := next_node m\<rparr>)\<rparr>)"
  using assms
  by (simp add: EraseAfter_def get_next_def delete_Node_def set_next_def
      dec_size_def get_size_def set_size_def sll_all_upd store_all_upd)

lemma InsertAfter_chain:
  assumes l: "this < length (lists st)"
    and c: "chain (nodes st) (head_next_node (lists st ! this)) as" and k: "k \<le> length as"
  obtains (fail) "InsertAfter alloc st this (position this as k) v = Inl (bad_alloc st)"
  | (ok) a st' where
      "InsertAfter alloc st this (position this as k) v = Inr (BasicIterator (Some (Cell a)), st')"
      "nodes st a = None" "a \<noteq> 0"
      "chain (nodes st') (head_next_node (lists st' ! this)) (take k as @ a # drop k as)"
      "vals (nodes st') (take k as @ a # drop k as)
         = take k (vals (nodes st) as) @ v # drop k (vals (nodes st) as)"
      "length (lists st') = length (lists st)"
      "m_size (lists st' ! this) = m_size (lists st ! this) + 1"
      "\<And>j. j \<noteq> this \<Longrightarrow> lists st' ! j = lists st ! j"
      "\<And>b. b \<notin> set as \<Longrightarrow> b \<noteq> a \<Longrightarrow> nodes st' b = nodes st b"
      "get_next st' (m_node (position this as k)) = Some (Some (Cell a))"
      "get_value st' (Some (Cell a)) = Some v"
proof (cases k)
  case 0
  show ?thesis
  proof (cases rule: InsertAfter_before_begin[OF l, of alloc v])
    case 1
    then show ?thesis by (intro fail) (simp add: position_def 0)
  next
    case (2 a)
    let ?st' = "\<lparr>lists = (lists st)[this := \<lparr>head_next_node = Some (Cell a),
                                            m_size = m_size (lists st ! this) + 1\<rparr>],
               nodes = (nodes st)(a \<mapsto> \<lparr>value = v, next_node = head_next_node (lists st ! this)\<rparr>)\<rparr>"
    have a: "a \<notin> set as" using chain_in_dom[OF c, of a] 2(1) by auto
    show ?thesis
    proof (rule ok[of a ?st'])
      show "InsertAfter alloc st this (position this as k) v = Inr (BasicIterator (Some (Cell a)), ?st')"
        using 2(3) by (simp add: position_def 0)
      show "chain (nodes ?st') (head_next_node (lists ?st' ! this)) (take k as @ a # drop k as)"
        using chain_insert_front(1)[OF c a, of v] l by (simp add: 0)
      show "vals (nodes ?st') (take k as @ a # drop k as)
         = take k (vals (nodes st) as) @ v # drop k (vals (nodes st) as)"
        using chain_insert_front(2)[OF c a, of v] by (simp add: 0)
      show "get_next ?st' (m_node (position this as k)) = Some (Some (Cell a))"
        using l by (simp add: position_def 0 before_begin_def get_next_def)
    qed (use 2 l a in \<open>simp_all add: get_value_def\<close>)
  qed
next
  case (Suc i)
  with k have i: "i < length as" by simp
  from chain_in_dom[OF c, of "as ! i"] i obtain n where n: "nodes st (as ! i) = Some n" by auto
  have pos: "position this as k = BasicIterator (Some (Cell (as ! i)))"
    by (simp add: position_def Suc)
  show ?thesis
  proof (cases rule: InsertAfter_cell[OF l n, of alloc v])
    case 1
    then show ?thesis by (intro fail) (simp add: pos)
  next
    case (2 a)
    let ?st' = "\<lparr>lists = (lists st)[this := (lists st ! this)\<lparr>m_size := m_size (lists st ! this) + 1\<rparr>],
               nodes = (nodes st)(a \<mapsto> \<lparr>value = v, next_node = next_node n\<rparr>,
                                  as ! i \<mapsto> n\<lparr>next_node := Some (Cell a)\<rparr>)\<rparr>"
    have a: "a \<notin> set as" using chain_in_dom[OF c, of a] 2(1) by auto
    then have ai: "a \<noteq> as ! i" using i by auto
    show ?thesis
    proof (rule ok[of a ?st'])
      show "InsertAfter alloc st this (position this as k) v = Inr (BasicIterator (Some (Cell a)), ?st')"
        using 2(3) by (simp add: pos)
      show "chain (nodes ?st') (head_next_node (lists ?st' ! this)) (take k as @ a # drop k as)"
        using chain_insert_after(1)[OF c i a n, of v] l by (simp add: Suc)
      show "vals (nodes ?st') (take k as @ a # drop k as)
         = take k (vals (nodes st) as) @ v # drop k (vals (nodes st) as)"
        using chain_insert_after(2)[OF c i a n, of v] by (simp add: Suc)
      show "get_next ?st' (m_node (position this as k)) = Some (Some (Cell a))"
        by (simp add: pos get_next_def)
      show "get_value ?st' (Some (Cell a)) = Some v"
        using ai by (simp add: get_value_def)
      show "nodes ?st' b = nodes st b" if "b \<notin> set as" "b \<noteq> a" for b
        using that i by auto
    qed (use 2 l in simp_all)
  qed
qed

lemma EraseAfter_chain:
  assumes l: "this < length (lists st)"
    and c: "chain (nodes st) (head_next_node (lists st ! this)) as" and k: "k < length as"
  obtains st' where
      "EraseAfter st this (position this as k) =
         Inr (BasicIterator (if Suc k < length as then Some (Cell (as ! Suc k)) else None), st')"
      "chain (nodes st') (head_next_node (lists st' ! this)) (take k as @ drop (Suc k) as)"
      "vals (nodes st') (take k as @ drop (Suc k) as)
         = take k (vals (nodes st) as) @ drop (Suc k) (vals (nodes st) as)"
      "length (lists st') = length (lists st)"
      "m_size (lists st' ! this) = m_size (lists st ! this) - 1"
      "\<And>j. j \<noteq> this \<Longrightarrow> lists st' ! j = lists st ! j"
      "\<And>b. b \<notin> set as \<Longrightarrow> nodes st' b = nodes st b"
      "nodes st' (as ! k) = None"
proof -
  have nxt: "chain (nodes st) p bs \<Longrightarrow> p = (if 0 < length bs then Some (Cell (bs ! 0)) else None)"
    for p bs by (cases bs) auto
  show ?thesis
  proof (cases k)
    case 0
    with k obtain a as' where as: "as = a # as'" by (cases as) auto
    with c obtain n where n: "head_next_node (lists st ! this) = Some (Cell a)" "nodes st a = Some n"
      "chain (nodes st) (next_node n) as'" by auto
    let ?st' = "\<lparr>lists = (lists st)[this := \<lparr>head_next_node = next_node n,
                                            m_size = m_size (lists st ! this) - 1\<rparr>],
               nodes = (nodes st)(a := None)\<rparr>"
    have c': "chain (nodes st) (head_next_node (lists st ! this)) (a # as')" using c as by simp
    show ?thesis
    proof (rule that[of ?st'])
      show "EraseAfter st this (position this as k) =
         Inr (BasicIterator (if Suc k < length as then Some (Cell (as ! Suc k)) else None), ?st')"
        using EraseAfter_before_begin[OF l n(1,2)] nxt[OF n(3)]
        by (simp add: position_def 0 as)
      show "chain (nodes ?st') (head_next_node (lists ?st' ! this)) (take k as @ drop (Suc k) as)"
        using chain_erase_front(1)[OF c' n(2)] l by (simp add: 0 as)
      show "vals (nodes ?st') (take k as @ drop (Suc k) as)
         = take k (vals (nodes st) as) @ drop (Suc k) (vals (nodes st) as)"
        using chain_erase_front(2)[OF c' n(2)] by (simp add: 0 as)
    qed (use l as in \<open>simp_all add: 0\<close>)
  next
    case (Suc i)
    with k have i: "Suc i < length as" by simp
    from chain_in_dom[OF c, of "as ! i"] chain_in_dom[OF c, of "as ! Suc i"] i
    obtain n m where n: "nodes st (as ! i) = Some n" and m: "nodes st (as ! Suc i) = Some m"
      by auto
    have pos: "position this as k = BasicIterator (Some (Cell (as ! i)))"
      by (simp add: position_def Suc)
    have d: "as ! i \<noteq> as ! Suc i"
      using chain_distinct[OF c] i by (simp add: nth_eq_iff_index_eq)
    note e = chain_erase_after[OF c i n m]
    let ?st' = "\<lparr>lists = (lists st)[this := (lists st ! this)\<lparr>m_size := m_size (lists st ! this) - 1\<rparr>],
               nodes = ((nodes st)(as ! Suc i := None))(as ! i \<mapsto> n\<lparr>next_node := next_node m\<rparr>)\<rparr>"
    from c have "chain (nodes st) (head_next_node (lists st ! this)) (take (Suc (Suc i)) as @ drop (Suc (Suc i)) as)"
      by simp
    then obtain r where r: "path (nodes st) (head_next_node (lists st ! this)) (take (Suc (Suc i)) as) r"
      "chain (nodes st) r (drop (Suc (Suc i)) as)"
      unfolding chain_append by blast
    have "take (Suc (Suc i)) as = take (Suc i) as @ [as ! Suc i]"
      using i by (simp add: take_Suc_conv_app_nth)
    with r(1) m have "next_node m = r" by (simp add: path_last)
    with nxt[OF r(2)] i
    have nm: "next_node m = (if Suc (Suc i) < length as then Some (Cell (as ! Suc (Suc i))) else None)"
      by simp
    show ?thesis
    proof (rule that[of ?st'])
      show "EraseAfter st this (position this as k) =
         Inr (BasicIterator (if Suc k < length as then Some (Cell (as ! Suc k)) else None), ?st')"
        unfolding pos EraseAfter_cell[OF l n e(3) m d] by (simp add: nm Suc)
      show "chain (nodes ?st') (head_next_node (lists ?st' ! this)) (take k as @ drop (Suc k) as)"
        using e(1) l by (simp add: Suc)
      show "vals (nodes ?st') (take k as @ drop (Suc k) as)
         = take k (vals (nodes st) as) @ drop (Suc k) (vals (nodes st) as)"
        using e(2) by (simp add: Suc)
      show "nodes ?st' b = nodes st b" if "b \<notin> set as" for b
        using that i by auto
      show "nodes ?st' (as ! k) = None" using d by (simp add: Suc)
    qed (use l in simp_all)
  qed
qed

lemma wfD:
  assumes "wf st ass"
  shows "length ass = length (lists st)"
    and "\<And>l. l < length (lists st) \<Longrightarrow> chain (nodes st) (head_next_node (lists st ! l)) (ass ! l)"
    and "\<And>l. l < length (lists st) \<Longrightarrow> unat (m_size (lists st ! l)) = length (ass ! l)"
    and "\<And>l. l < length (lists st) \<Longrightarrow> 0 \<notin> set (ass ! l)"
    and "\<And>i j. i < length (lists st) \<Longrightarrow> j < length (lists st) \<Longrightarrow> i \<noteq> j \<Longrightarrow>
            set (ass ! i) \<inter> set (ass ! j) = {}"
  using assms by (simp_all add: wf_def)

lemma wfI:
  assumes "length ass = length (lists st)"
    and "\<And>l. l < length (lists st) \<Longrightarrow> chain (nodes st) (head_next_node (lists st ! l)) (ass ! l)"
    and "\<And>l. l < length (lists st) \<Longrightarrow> unat (m_size (lists st ! l)) = length (ass ! l)"
    and "\<And>l. l < length (lists st) \<Longrightarrow> 0 \<notin> set (ass ! l)"
    and "\<And>i j. i < length (lists st) \<Longrightarrow> j < length (lists st) \<Longrightarrow> i \<noteq> j \<Longrightarrow>
            set (ass ! i) \<inter> set (ass ! j) = {}"
  shows "wf st ass"
  using assms by (simp add: wf_def)

lemma wf_in_dom:
  assumes "wf st ass" "l < length (lists st)" "a \<in> set (ass ! l)"
  shows "nodes st a \<noteq> None"
  using chain_in_dom[OF wfD(2)[OF assms(1,2)] assms(3)] .

text \<open>One list gets a new chain; the heap changes only inside its old and its new chain.\<close>

lemma wf_update:
  assumes w: "wf st ass" and l: "this < length (lists st)"
    and len: "length (lists st') = length (lists st)"
    and others: "\<And>j. j < length (lists st) \<Longrightarrow> j \<noteq> this \<Longrightarrow> lists st' ! j = lists st ! j"
    and frame: "\<And>a. a \<notin> set (ass ! this) \<Longrightarrow> a \<notin> set as' \<Longrightarrow> nodes st' a = nodes st a"
    and c: "chain (nodes st') (head_next_node (lists st' ! this)) as'"
    and sz: "unat (m_size (lists st' ! this)) = length as'"
    and z: "0 \<notin> set as'"
    and dj: "\<And>j. j < length (lists st) \<Longrightarrow> j \<noteq> this \<Longrightarrow> set as' \<inter> set (ass ! j) = {}"
  shows "wf st' (ass[this := as'])"
proof (rule wfI)
  note n = wfD(1)[OF w]
  show "length (ass[this := as']) = length (lists st')" by (simp add: n len)
  show "chain (nodes st') (head_next_node (lists st' ! j)) (ass[this := as'] ! j)"
    if "j < length (lists st')" for j
  proof (cases "j = this")
    case True
    with c l n show ?thesis by simp
  next
    case False
    from that len have j: "j < length (lists st)" by simp
    have "chain (nodes st') (head_next_node (lists st ! j)) (ass ! j)
            = chain (nodes st) (head_next_node (lists st ! j)) (ass ! j)"
    proof (rule chain_cong)
      fix a assume a: "a \<in> set (ass ! j)"
      with wfD(5)[OF w j l False] dj[OF j False] show "nodes st' a = nodes st a"
        by (intro frame) auto
    qed
    with wfD(2)[OF w j] others[OF j False] False show ?thesis by simp
  qed
  show "unat (m_size (lists st' ! j)) = length (ass[this := as'] ! j)"
    if "j < length (lists st')" for j
    using that len sz l n wfD(3)[OF w, of j] others[of j] by (cases "j = this") simp_all
  show "0 \<notin> set (ass[this := as'] ! j)" if "j < length (lists st')" for j
    using that len z l n wfD(4)[OF w, of j] by (cases "j = this") simp_all
  show "set (ass[this := as'] ! i) \<inter> set (ass[this := as'] ! j) = {}"
    if "i < length (lists st')" "j < length (lists st')" "i \<noteq> j" for i j
  proof -
    from that len have ij: "i < length (lists st)" "j < length (lists st)" by simp_all
    show ?thesis
    proof (cases "i = this")
      case True
      with that(3) dj[OF ij(2)] l n show ?thesis by simp
    next
      case False
      show ?thesis
      proof (cases "j = this")
        case True
        with False dj[OF ij(1)] l n show ?thesis by auto
      next
        case j: False
        with False wfD(5)[OF w ij that(3)] show ?thesis by simp
      qed
    qed
  qed
qed

lemma unat_inc:
  fixes s :: "64 word"
  assumes "unat s = n" "Suc n < 2 ^ 64"
  shows "unat (s + 1) = Suc n"
proof -
  have "unat s + unat (1 :: 64 word) < 2 ^ LENGTH(64)" using assms by simp
  then have "unat (s + 1) = unat s + unat (1 :: 64 word)" by (simp only: unat_add_lem)
  with assms show ?thesis by simp
qed

lemma unat_dec:
  fixes s :: "64 word"
  assumes "unat s = n" "0 < n"
  shows "unat (s - 1) = n - 1"
proof -
  from assms have "s \<noteq> 0" by auto
  then show ?thesis using assms by (simp add: unat_minus_one)
qed

lemma wf_InsertAfter:
  assumes w: "wf st ass" and l: "this < length (lists st)" and k: "k \<le> length (ass ! this)"
    and r: "InsertAfter alloc st this (position this (ass ! this) k) v = Inr (it, st')"
  shows "\<exists>a. wf st' (ass[this := take k (ass ! this) @ a # drop k (ass ! this)])"
proof (cases rule: InsertAfter_chain[OF l wfD(2)[OF w l] k, of alloc v])
  case 1
  with r show ?thesis by simp
next
  case (2 a st'')
  note ok = 2
  with r have st'': "st'' = st'" by simp
  let ?as = "ass ! this" and ?as' = "take k (ass ! this) @ a # drop k (ass ! this)"
  note ok = ok[unfolded st'']
  have set_as': "set ?as' = insert a (set ?as)"
    by (metis append_take_drop_id list.simps(15) set_append Un_insert_right)
  have fresh: "a \<notin> set (ass ! j)" if "j < length (lists st)" for j
    using wf_in_dom[OF w that, of a] ok(2) by auto
  have z: "0 \<notin> set ?as'" unfolding set_as' using wfD(4)[OF w l] ok(3) by simp
  have "length ?as' < 2 ^ 64"
    using chain_distinct[OF ok(4)] z by (rule length_addrs_bound)
  then have sz: "unat (m_size (lists st' ! this)) = length ?as'"
    using unat_inc[OF wfD(3)[OF w l]] k by (simp add: ok(7))
  have "wf st' (ass[this := ?as'])"
  proof (rule wf_update[OF w l ok(6) _ _ ok(4) sz z])
    show "lists st' ! j = lists st ! j" if "j \<noteq> this" for j by (rule ok(8)[OF that])
    show "nodes st' b = nodes st b" if "b \<notin> set ?as" "b \<notin> set ?as'" for b
      using that unfolding set_as' by (intro ok(9)) simp_all
    show "set ?as' \<inter> set (ass ! j) = {}" if "j < length (lists st)" "j \<noteq> this" for j
      unfolding set_as' using wfD(5)[OF w l that(1)] that(2) fresh[OF that(1)] by auto
  qed
  then show ?thesis by blast
qed

lemma wf_EraseAfter:
  assumes w: "wf st ass" and l: "this < length (lists st)" and k: "k < length (ass ! this)"
    and r: "EraseAfter st this (position this (ass ! this) k) = Inr (it, st')"
  shows "wf st' (ass[this := take k (ass ! this) @ drop (Suc k) (ass ! this)])"
proof -
  let ?as = "ass ! this" and ?as' = "take k (ass ! this) @ drop (Suc k) (ass ! this)"
  from EraseAfter_chain[OF l wfD(2)[OF w l] k] r obtain st'' where e:
      "EraseAfter st this (position this ?as k) =
         Inr (BasicIterator (if Suc k < length ?as then Some (Cell (?as ! Suc k)) else None), st'')"
      "chain (nodes st'') (head_next_node (lists st'' ! this)) ?as'"
      "length (lists st'') = length (lists st)"
      "m_size (lists st'' ! this) = m_size (lists st ! this) - 1"
      "\<And>j. j \<noteq> this \<Longrightarrow> lists st'' ! j = lists st ! j"
      "\<And>b. b \<notin> set ?as \<Longrightarrow> nodes st'' b = nodes st b"
    by metis
  with r have st'': "st'' = st'" by simp
  note e = e[unfolded st'']
  have sub: "set ?as' \<subseteq> set ?as"
    by (auto dest: in_set_takeD in_set_dropD)
  have "0 < length ?as" using k by auto
  from unat_dec[OF wfD(3)[OF w l] this]
  have "unat (m_size (lists st ! this) - 1) = length ?as - 1" .
  moreover have "length ?as' = length ?as - 1" using k by simp
  ultimately have sz: "unat (m_size (lists st' ! this)) = length ?as'"
    by (simp only: e(4))
  show ?thesis
  proof (rule wf_update[OF w l e(3) _ _ e(2) sz])
    show "lists st' ! j = lists st ! j" if "j \<noteq> this" for j by (rule e(5)[OF that])
    show "nodes st' b = nodes st b" if "b \<notin> set ?as" for b by (rule e(6)[OF that])
    show "0 \<notin> set ?as'" using wfD(4)[OF w l] sub by auto
    show "set ?as' \<inter> set (ass ! j) = {}" if "j < length (lists st)" "j \<noteq> this" for j
      using wfD(5)[OF w l that(1)] that(2) sub by auto
  qed
qed

lemma wf_empty: "wf \<lparr>lists = [], nodes = Map.empty\<rparr> []"
  by (simp add: wf_def)

lemma wf_append:
  assumes w: "wf st ass"
    and ls: "lists st' = lists st @ [L]"
    and frame: "\<And>a. a \<notin> set as \<Longrightarrow> nodes st' a = nodes st a"
    and c: "chain (nodes st') (head_next_node L) as"
    and sz: "unat (m_size L) = length as"
    and z: "0 \<notin> set as"
    and fresh: "set as \<inter> dom (nodes st) = {}"
  shows "wf st' (ass @ [as])"
proof (rule wfI)
  note n = wfD(1)[OF w]
  have old: "set (ass ! j) \<inter> set as = {}" if "j < length (lists st)" for j
    using wf_in_dom[OF w that] fresh by auto
  show "length (ass @ [as]) = length (lists st')" by (simp add: n ls)
  show "chain (nodes st') (head_next_node (lists st' ! j)) ((ass @ [as]) ! j)"
    if "j < length (lists st')" for j
  proof (cases "j < length (lists st)")
    case True
    have "chain (nodes st') (head_next_node (lists st ! j)) (ass ! j)
            = chain (nodes st) (head_next_node (lists st ! j)) (ass ! j)"
      by (rule chain_cong) (use old[OF True] in \<open>auto intro: frame\<close>)
    with wfD(2)[OF w True] True show ?thesis by (simp add: ls nth_append n)
  next
    case False
    with that have "j = length (lists st)" by (simp add: ls)
    with c show ?thesis by (simp add: ls nth_append n)
  qed
  show "unat (m_size (lists st' ! j)) = length ((ass @ [as]) ! j)" if "j < length (lists st')" for j
    using that sz wfD(3)[OF w, of j] by (cases "j < length (lists st)") (auto simp: ls nth_append n)
  show "0 \<notin> set ((ass @ [as]) ! j)" if "j < length (lists st')" for j
    using that z wfD(4)[OF w, of j] by (cases "j < length (lists st)") (auto simp: ls nth_append n)
  show "set ((ass @ [as]) ! i) \<inter> set ((ass @ [as]) ! j) = {}"
    if "i < length (lists st')" "j < length (lists st')" "i \<noteq> j" for i j
  proof (cases "i < length (lists st)"; cases "j < length (lists st)")
    assume "i < length (lists st)" "j < length (lists st)"
    with wfD(5)[OF w this that(3)] show ?thesis by (simp add: nth_append n)
  next
    assume ij: "i < length (lists st)" "\<not> j < length (lists st)"
    with that have "j = length (lists st)" by (simp add: ls)
    with ij old[OF ij(1)] show ?thesis by (simp add: nth_append n)
  next
    assume ij: "\<not> i < length (lists st)" "j < length (lists st)"
    with that have "i = length (lists st)" by (simp add: ls)
    with ij old[OF ij(2)] show ?thesis by (auto simp: nth_append n)
  next
    assume "\<not> i < length (lists st)" "\<not> j < length (lists st)"
    with that show ?thesis by (simp add: ls)
  qed
qed

lemma wf_default_ctor:
  assumes "wf st ass" "default_ctor st = (l, st')"
  shows "wf st' (ass @ [[]])"
proof (rule wf_append[OF assms(1)])
  show "lists st' = lists st @ [\<lparr>head_next_node = None, m_size = 0\<rparr>]"
    using assms(2) by (auto simp: default_ctor_def)
  show "nodes st' a = nodes st a" for a using assms(2) by (auto simp: default_ctor_def)
qed simp_all

lemma wf_built:
  assumes w: "wf st ass" and b: "built st st' as xs"
  shows "wf st' (ass @ [as])"
proof -
  from b obtain p where p:
    "lists st' = lists st @ [\<lparr>head_next_node = p, m_size = of_nat (length xs)\<rparr>]"
    "chain (nodes st') p as" and v: "vals (nodes st') as = xs"
    and f: "\<And>a. a \<notin> set as \<Longrightarrow> nodes st' a = nodes st a"
    and d: "set as \<inter> dom (nodes st) = {}" and z: "0 \<notin> set as"
    by (auto simp: built_def)
  have "length xs = length as" using v length_vals[of "nodes st'" as] by simp
  with built_iterate(3)[OF b] have sz: "unat (of_nat (length xs) :: 64 word) = length as" by simp
  show ?thesis
    by (rule wf_append[OF w p(1) f]) (use p(2) sz z d in simp_all)
qed

lemma wf_Clear:
  assumes w: "wf st ass" and l: "this < length (lists st)"
  shows "\<exists>st'. Clear st this = Some (Inr ((), st')) \<and> wf st' (ass[this := []])
           \<and> length (lists st') = length (lists st)"
proof -
  let ?as = "ass ! this"
  have hd: "get_next st (Some (Sentinel this)) = Some (head_next_node (lists st ! this))"
    using l by (simp add: get_next_def)
  from Clear_effect[OF hd wfD(2)[OF w l]] obtain st' where st': "Clear st this = Some (Inr ((), st'))"
    "\<And>q. get_next st' q = (if q = Some (Sentinel this) then Some None
                                else if (\<exists>a\<in>set ?as. q = Some (Cell a)) then None else get_next st q)"
    "nodes st' = (\<lambda>a. if a \<in> set ?as then None else nodes st a)"
    "\<And>k. get_size st' k = (if k = this then Some 0 else get_size st k)"
    "length (lists st') = length (lists st)"
    by blast
  have h: "head_next_node (lists st' ! this) = None" "m_size (lists st' ! this) = 0"
    using st'(2)[of "Some (Sentinel this)"] st'(4)[of this] l st'(5)
    by (simp_all add: get_next_def get_size_def)
  have "wf st' (ass[this := []])"
  proof (rule wf_update[OF w l st'(5)])
    show "lists st' ! j = lists st ! j" if "j < length (lists st)" "j \<noteq> this" for j
      using that st'(5) by (intro list_entry_eqI) (simp_all add: st')
    show "nodes st' a = nodes st a" if "a \<notin> set ?as" for a using that by (simp add: st'(3))
  qed (simp_all add: h)
  with st'(1,5) show ?thesis by blast
qed

lemma wf_swap:
  assumes w: "wf st ass" and A: "A < length (lists st)" and B: "B < length (lists st)"
  shows "wf (st\<lparr>lists := (lists st)[A := lists st ! B, B := lists st ! A]\<rparr>)
            (ass[A := ass ! B, B := ass ! A])"
proof -
  define \<pi> where "\<pi> l = (if l = A then B else if l = B then A else l)" for l
  let ?st' = "st\<lparr>lists := (lists st)[A := lists st ! B, B := lists st ! A]\<rparr>"
  let ?ass' = "ass[A := ass ! B, B := ass ! A]"
  note n = wfD(1)[OF w]
  have pi: "\<pi> l < length (lists st)" if "l < length (lists st)" for l
    using that A B by (simp add: \<pi>_def)
  have inj: "\<pi> i \<noteq> \<pi> j" if "i \<noteq> j" for i j using that by (auto simp: \<pi>_def)
  have L: "lists ?st' ! l = lists st ! \<pi> l" if "l < length (lists st)" for l
    using that A B by (auto simp: \<pi>_def nth_list_update)
  have S: "?ass' ! l = ass ! \<pi> l" if "l < length (lists st)" for l
    using that A B n by (auto simp: \<pi>_def nth_list_update)
  show ?thesis
  proof (rule wfI)
    show "length ?ass' = length (lists ?st')" by (simp add: n)
    show "chain (nodes ?st') (head_next_node (lists ?st' ! l)) (?ass' ! l)"
      if "l < length (lists ?st')" for l
      using that wfD(2)[OF w pi[of l]] L[of l] S[of l] by simp
    show "unat (m_size (lists ?st' ! l)) = length (?ass' ! l)" if "l < length (lists ?st')" for l
      using that wfD(3)[OF w pi[of l]] L[of l] S[of l] by simp
    show "0 \<notin> set (?ass' ! l)" if "l < length (lists ?st')" for l
      using that wfD(4)[OF w pi[of l]] S[of l] by simp
    show "set (?ass' ! i) \<inter> set (?ass' ! j) = {}"
      if "i < length (lists ?st')" "j < length (lists ?st')" "i \<noteq> j" for i j
      using that wfD(5)[OF w pi[of i] pi[of j] inj[OF that(3)]] S[of i] S[of j] by simp
  qed
qed


lemma copy_assign_effect:
  assumes w: "wf st ass" and l: "this < length (lists st)" and r: "rhs < length (lists st)"
    and ne: "this \<noteq> rhs"
  shows "(copy_assign alloc st this rhs = Some (Inl (bad_alloc st))
       \<and> (\<exists>h. dom (nodes st) \<subseteq> dom h \<and> card (dom h) < card (dom (nodes st)) + length (ass ! rhs)
              \<and> \<not> serves alloc h)) \<or>
     (\<exists>st' as. copy_assign alloc st this rhs = Some (Inr (this, st'))
        \<and> wf st' (ass[this := as])
        \<and> vals (nodes st') as = vals (nodes st) (ass ! rhs)
        \<and> length (lists st') = length (lists st)
        \<and> (\<forall>j<length (lists st). j \<noteq> this \<longrightarrow>
              lists st' ! j = lists st ! j \<and> vals (nodes st') (ass ! j) = vals (nodes st) (ass ! j)))"
proof -
  let ?n = "length (lists st)"
  let ?bs = "ass ! rhs" and ?cs = "ass ! this"
  from ctor_copy_effect[OF r wfD(2)[OF w r], of alloc]
  show ?thesis
  proof
    assume "ctor_copy alloc st rhs = Some (Inl (bad_alloc st))
       \<and> (\<exists>h. dom (nodes st) \<subseteq> dom h \<and> card (dom h) < card (dom (nodes st)) + length ?bs
              \<and> \<not> serves alloc h)"
    then show ?thesis using ne by (simp add: copy_assign_def)
  next
    assume "\<exists>st' as. ctor_copy alloc st rhs = Some (Inr (?n, st')) \<and> built st st' as (vals (nodes st) ?bs)"
    then obtain st1 as where c: "ctor_copy alloc st rhs = Some (Inr (?n, st1))"
      and b: "built st st1 as (vals (nodes st) ?bs)" by blast
    from b obtain p where p:
      "lists st1 = lists st @ [\<lparr>head_next_node = p, m_size = of_nat (length (vals (nodes st) ?bs))\<rparr>]"
      "chain (nodes st1) p as" and v: "vals (nodes st1) as = vals (nodes st) ?bs"
      and f: "\<And>a. a \<notin> set as \<Longrightarrow> nodes st1 a = nodes st a"
      and d: "set as \<inter> dom (nodes st) = {}" and z: "0 \<notin> set as"
      by (auto simp: built_def)
    let ?L = "\<lparr>head_next_node = p, m_size = of_nat (length (vals (nodes st) ?bs))\<rparr>"
    have old: "set (ass ! j) \<inter> set as = {}" if "j < ?n" for j
      using wf_in_dom[OF w that] d by auto
    define st2 where "st2 = st1\<lparr>lists := (lists st1)[this := lists st1 ! ?n, ?n := lists st1 ! this]\<rparr>"
    have sw: "swap st1 this ?n = Inr ((), st2)"
      unfolding st2_def by (rule swap_valid) (use l in \<open>simp_all add: p(1)\<close>)
    have l2: "lists st2 = (lists st)[this := ?L] @ [lists st ! this]"
      using l by (simp add: st2_def p(1) nth_append list_update_append)
    have n2: "nodes st2 = nodes st1" by (simp add: st2_def)
    have "chain (nodes st1) (head_next_node (lists st ! this)) ?cs
            = chain (nodes st) (head_next_node (lists st ! this)) ?cs"
      by (rule chain_cong) (use old[OF l] in \<open>auto intro: f\<close>)
    with wfD(2)[OF w l] have c2: "chain (nodes st2) (head_next_node (lists st2 ! ?n)) ?cs"
      by (simp add: l2 n2 nth_append)
    have len2: "length (lists st2) = Suc ?n" by (simp add: l2)
    have ls: "leave_scope st2 ?n = Some (Inr ((), \<lparr>lists = (lists st)[this := ?L],
            nodes = (\<lambda>a. if a \<in> set ?cs then None else nodes st1 a)\<rparr>))"
      unfolding leave_scope_effect[OF len2 c2] n2 by (simp add: l2)
    let ?st3 = "\<lparr>lists = (lists st)[this := ?L],
            nodes = (\<lambda>a. if a \<in> set ?cs then None else nodes st1 a)\<rparr>"
    have res: "copy_assign alloc st this rhs = Some (Inr (this, ?st3))"
      using ne by (simp add: copy_assign_def c sw ls)
    have new: "nodes ?st3 a = nodes st1 a" if "a \<in> set as" for a
      using that old[OF l] by auto
    have c3: "chain (nodes ?st3) p as"
      using p(2) chain_cong[of as "nodes ?st3" "nodes st1" p] new by blast
    have v3: "vals (nodes ?st3) as = vals (nodes st) ?bs"
      using v vals_cong[of as "nodes ?st3" "nodes st1"] new by simp
    have "length (vals (nodes st) ?bs) = length as"
      using v length_vals[of "nodes st1" as] by simp
    with built_iterate(3)[OF b]
    have sz: "unat (of_nat (length (vals (nodes st) ?bs)) :: 64 word) = length as" by simp
    have w3: "wf ?st3 (ass[this := as])"
    proof (rule wf_update[OF w l])
      show "chain (nodes ?st3) (head_next_node (lists ?st3 ! this)) as" using c3 l by simp
      show "unat (m_size (lists ?st3 ! this)) = length as" using sz l by simp
      show "nodes ?st3 a = nodes st a" if "a \<notin> set ?cs" "a \<notin> set as" for a
        using that f by simp
      show "set as \<inter> set (ass ! j) = {}" if "j < ?n" for j using old[OF that] by auto
    qed (use z in simp_all)
    have fr: "lists ?st3 ! j = lists st ! j \<and> vals (nodes ?st3) (ass ! j) = vals (nodes st) (ass ! j)"
      if "j < ?n" "j \<noteq> this" for j
    proof -
      have "nodes ?st3 a = nodes st a" if "a \<in> set (ass ! j)" for a
        using that wfD(5)[OF w l \<open>j < ?n\<close>] \<open>j \<noteq> this\<close> old[OF \<open>j < ?n\<close>] f[of a] by auto
      then have "vals (nodes ?st3) (ass ! j) = vals (nodes st) (ass ! j)" by (rule vals_cong)
      with that show ?thesis by simp
    qed
    show ?thesis
      using res w3 v3 fr by (intro disjI2 exI[of _ ?st3] exI[of _ as]) simp
  qed
qed

lemma copy_assign_self: "copy_assign alloc st this this = Some (Inr (this, st))"
  by (simp add: copy_assign_def)

lemma position_advance:
  assumes "this < length (lists st)" "chain (nodes st) (head_next_node (lists st ! this)) as"
    "k \<le> length as"
  shows "advance st (before_begin this) k = Some (position this as k)"
  using advance_before_begin[OF assms(1,2), of k] assms(3) by (simp add: position_def)

lemma wf_GetSize:
  assumes "wf st ass" "l < length (lists st)"
  shows "GetSize st l = Some (of_nat (length (ass ! l)))"
proof -
  have "m_size (lists st ! l) = of_nat (unat (m_size (lists st ! l)))" by simp
  with wfD(3)[OF assms] assms(2) show ?thesis by (simp add: GetSize_def get_size_def)
qed


lemma succ_star_unfold:
  "(a, b) \<in> (node_succ h)\<^sup>* \<longleftrightarrow>
     a = b \<or> (\<exists>n c. h a = Some n \<and> next_node n = Some (Cell c) \<and> (c, b) \<in> (node_succ h)\<^sup>*)"
proof
  assume "(a, b) \<in> (node_succ h)\<^sup>*"
  then show "a = b \<or> (\<exists>n c. h a = Some n \<and> next_node n = Some (Cell c) \<and> (c, b) \<in> (node_succ h)\<^sup>*)"
    by (cases rule: converse_rtranclE) (auto simp: node_succ_def)
next
  assume "a = b \<or> (\<exists>n c. h a = Some n \<and> next_node n = Some (Cell c) \<and> (c, b) \<in> (node_succ h)\<^sup>*)"
  then show "(a, b) \<in> (node_succ h)\<^sup>*"
  proof
    assume "a = b" then show ?thesis by simp
  next
    assume "\<exists>n c. h a = Some n \<and> next_node n = Some (Cell c) \<and> (c, b) \<in> (node_succ h)\<^sup>*"
    then obtain n c where "h a = Some n" "next_node n = Some (Cell c)" "(c, b) \<in> (node_succ h)\<^sup>*"
      by blast
    then have "(a, c) \<in> node_succ h" by (auto simp: node_succ_def)
    then show ?thesis using \<open>(c, b) \<in> (node_succ h)\<^sup>*\<close> by (rule converse_rtrancl_into_rtrancl)
  qed
qed

lemma reach_chain:
  "chain h p as \<Longrightarrow> {b. \<exists>a. p = Some (Cell a) \<and> (a, b) \<in> (node_succ h)\<^sup>*} = set as"
proof (induction as arbitrary: p)
  case Nil
  then show ?case by simp
next
  case (Cons a as)
  then obtain n where n: "p = Some (Cell a)" "h a = Some n" "chain h (next_node n) as" by auto
  have "{b. \<exists>a'. p = Some (Cell a') \<and> (a', b) \<in> (node_succ h)\<^sup>*} = {b. (a, b) \<in> (node_succ h)\<^sup>*}"
    using n(1) by auto
  also have "\<dots> = insert a {b. \<exists>c. next_node n = Some (Cell c) \<and> (c, b) \<in> (node_succ h)\<^sup>*}"
    using n(2) by (subst succ_star_unfold) auto
  also have "\<dots> = insert a (set as)" by (simp only: Cons.IH[OF n(3)])
  finally show ?case by simp
qed

lemma chain_no_cycle:
  assumes "chain h p as" "a \<in> set as"
  shows "(a, a) \<notin> (node_succ h)\<^sup>+"
proof
  assume cyc: "(a, a) \<in> (node_succ h)\<^sup>+"
  from chain_suffix[OF assms] obtain pre post where
    s: "as = pre @ a # post" "chain h (Some (Cell a)) (a # post)" by blast
  then obtain n where n: "h a = Some n" "chain h (next_node n) post" by auto
  from cyc obtain c where c: "(a, c) \<in> node_succ h" "(c, a) \<in> (node_succ h)\<^sup>*"
    by (blast dest: tranclD)
  with n(1) have "next_node n = Some (Cell c)" by (auto simp: node_succ_def)
  with c(2) have "a \<in> {b. \<exists>c. next_node n = Some (Cell c) \<and> (c, b) \<in> (node_succ h)\<^sup>*}" by blast
  then have "a \<in> set post" by (simp only: reach_chain[OF n(2)])
  with chain_head_notin_tail[OF s(2)] show False by simp
qed

lemma chain_last_null:
  "chain h p as \<Longrightarrow> as \<noteq> [] \<Longrightarrow> \<exists>n. h (last as) = Some n \<and> next_node n = None"
proof (induction as arbitrary: p)
  case Nil
  then show ?case by simp
next
  case (Cons a as)
  then obtain n where n: "h a = Some n" "chain h (next_node n) as" by auto
  show ?case
  proof (cases "as = []")
    case True
    with n show ?thesis by simp
  next
    case False
    with Cons.IH[OF n(2)] show ?thesis by simp
  qed
qed

lemma chain_head: "chain h p bs \<Longrightarrow> p = (if 0 < length bs then Some (Cell (bs ! 0)) else None)"
  by (cases bs) auto

lemma position_next:
  assumes l: "this < length (lists st)"
    and c: "chain (nodes st) (head_next_node (lists st ! this)) as" and k: "k \<le> length as"
  shows "get_next st (m_node (position this as k))
           = Some (if k < length as then Some (Cell (as ! k)) else None)"
proof -
  from chain_split[OF c k] obtain r where
    r: "path (nodes st) (head_next_node (lists st ! this)) (take k as) r"
       "chain (nodes st) r (drop k as)" by blast
  from chain_head[OF r(2)] k have r_eq: "r = (if k < length as then Some (Cell (as ! k)) else None)"
    by simp
  show ?thesis
  proof (cases k)
    case 0
    with r(1) have "head_next_node (lists st ! this) = r" by simp
    with r_eq l 0 show ?thesis
      by (simp add: position_def before_begin_def get_next_def)
  next
    case (Suc i)
    with k have "take k as = take i as @ [as ! i]" by (simp add: take_Suc_conv_app_nth)
    with r(1) obtain n where "nodes st (as ! i) = Some n" "next_node n = r"
      by (auto simp: path_last)
    with r_eq show ?thesis by (simp add: position_def Suc get_next_def)
  qed
qed

lemma InsertAfter_this_valid:
  "InsertAfter alloc st this pos v = Inr (it, st') \<Longrightarrow> this < length (lists st)"
  by (auto simp: InsertAfter_def new_Node_def set_next_def inc_size_def get_size_def set_size_def
      split: option.splits sum.splits if_splits ptr.splits)

lemma EraseAfter_this_valid:
  "EraseAfter st this pos = Inr (it, st') \<Longrightarrow> this < length (lists st)"
  by (auto simp: EraseAfter_def delete_Node_def set_next_def dec_size_def get_size_def set_size_def
      split: option.splits sum.splits if_splits ptr.splits)

lemma advance_valid:
  assumes l: "this < length (lists st)"
    and c: "chain (nodes st) (head_next_node (lists st ! this)) as"
    and a: "advance st (before_begin this) k = Some pos" and p: "get_next st (m_node pos) \<noteq> None"
  shows "k \<le> length as \<and> pos = position this as k"
proof -
  from advance_before_begin[OF l c, of k] a
  have "k \<le> length as \<or> pos = end_it"
    by (auto split: if_splits)
  moreover have "pos \<noteq> end_it" using p by (auto simp: end_it_def get_next_def)
  ultimately have k: "k \<le> length as" by simp
  with position_advance[OF l c k] a show ?thesis by simp
qed

lemma wf_step_InsertAfter:
  assumes w: "wf st ass" and a: "advance st (before_begin this) k = Some pos"
    and r: "InsertAfter alloc st this pos v = Inr (it, st')"
  shows "\<exists>ass'. wf st' ass'"
proof -
  note l = InsertAfter_this_valid[OF r]
  from r have "get_next st (m_node pos) \<noteq> None"
    by (auto simp: InsertAfter_def split: option.splits)
  from advance_valid[OF l wfD(2)[OF w l] a this]
  have k: "k \<le> length (ass ! this)" and pos: "pos = position this (ass ! this) k" by simp_all
  from wf_InsertAfter[OF w l k r[unfolded pos]] show ?thesis by blast
qed

lemma wf_step_EraseAfter:
  assumes w: "wf st ass" and a: "advance st (before_begin this) k = Some pos"
    and r: "EraseAfter st this pos = Inr (it, st')"
  shows "\<exists>ass'. wf st' ass'"
proof -
  note l = EraseAfter_this_valid[OF r]
  from r obtain victim where v: "get_next st (m_node pos) = Some victim"
    "get_next st victim \<noteq> None"
    by (auto simp: EraseAfter_def split: option.splits)
  then have "get_next st (m_node pos) \<noteq> None" by simp
  from advance_valid[OF l wfD(2)[OF w l] a this]
  have k: "k \<le> length (ass ! this)" and pos: "pos = position this (ass ! this) k" by simp_all
  have "k < length (ass ! this)"
  proof (rule ccontr)
    assume "\<not> k < length (ass ! this)"
    with position_next[OF l wfD(2)[OF w l] k] v(1) have "victim = None" by (simp add: pos)
    with v(2) show False by (simp add: get_next_def)
  qed
  from wf_EraseAfter[OF w l this r[unfolded pos]] show ?thesis by blast
qed

lemma advance_0: "advance st it 0 = Some it"
  by simp

lemma wf_step_PushFront:
  assumes w: "wf st ass" and r: "PushFront alloc st this v = Inr ((), st')"
  shows "\<exists>ass'. wf st' ass'"
proof -
  from r obtain it where "InsertAfter alloc st this (before_begin this) v = Inr (it, st')"
    unfolding PushFront_eq_InsertAfter by (auto split: sum.splits)
  from wf_step_InsertAfter[OF w advance_0 this] show ?thesis .
qed

lemma wf_step_PopFront:
  assumes w: "wf st ass" and r: "PopFront st this = Inr ((), st')"
  shows "\<exists>ass'. wf st' ass'"
proof -
  from r obtain it where "EraseAfter st this (before_begin this) = Inr (it, st')"
    unfolding PopFront_eq_EraseAfter by (auto split: sum.splits)
  from wf_step_EraseAfter[OF w advance_0 this] show ?thesis .
qed

lemma wf_step_Clear:
  assumes w: "wf st ass" and r: "Clear st this = Some (Inr ((), st'))"
  shows "\<exists>ass'. wf st' ass'"
proof -
  have l: "this < length (lists st)"
  proof (rule ccontr)
    assume "\<not> this < length (lists st)"
    then have "Clear_loop this st = Some (Inl undefined_behaviour)"
      by (subst Clear_loop.simps) (simp add: get_next_def)
    with r show False by (simp add: Clear_def)
  qed
  from wf_Clear[OF w l] r show ?thesis by auto
qed

lemma wf_step_swap:
  assumes w: "wf st ass" and r: "swap st A B = Inr ((), st')"
  shows "\<exists>ass'. wf st' ass'"
proof -
  from r have l: "A < length (lists st)" "B < length (lists st)"
    by (auto simp: swap_def get_next_def split: option.splits if_splits)
  from swap_valid[OF l] r wf_swap[OF w l] show ?thesis by auto
qed

lemma wf_step_ctor_initializer_list:
  assumes w: "wf st ass" and r: "ctor_initializer_list alloc st V = Some (Inr (l, st'))"
  shows "\<exists>ass'. wf st' ass'"
  using ctor_initializer_list_effect[of alloc st V] r wf_built[OF w] by auto

lemma wf_step_ctor_copy:
  assumes w: "wf st ass" and o: "other < length (lists st)"
    and r: "ctor_copy alloc st other = Some (Inr (l, st'))"
  shows "\<exists>ass'. wf st' ass'"
  using ctor_copy_effect[OF o wfD(2)[OF w o], of alloc] r wf_built[OF w] by auto

lemma wf_step_copy_assign:
  assumes w: "wf st ass" and l: "this < length (lists st)" "rhs < length (lists st)"
    and r: "copy_assign alloc st this rhs = Some (Inr (l', st'))"
  shows "\<exists>ass'. wf st' ass'"
proof (cases "this = rhs")
  case True
  with r w show ?thesis by (auto simp: copy_assign_self)
next
  case False
  from copy_assign_effect[OF w l False, of alloc] r show ?thesis by auto
qed

lemma reachable_wf: "reachable st \<Longrightarrow> \<exists>ass. wf st ass"
proof (induction rule: reachable.induct)
  case start
  show ?case using wf_empty by blast
next
  case (by_default_ctor st l st')
  from by_default_ctor.IH obtain ass where "wf st ass" ..
  from wf_default_ctor[OF this by_default_ctor.hyps(2)] show ?case ..
next
  case (by_ctor_initializer_list st alloc vs l st')
  from by_ctor_initializer_list.IH obtain ass where "wf st ass" ..
  from wf_step_ctor_initializer_list[OF this by_ctor_initializer_list.hyps(2)] show ?case .
next
  case (by_ctor_copy st other alloc l st')
  from by_ctor_copy.IH obtain ass where "wf st ass" ..
  from wf_step_ctor_copy[OF this by_ctor_copy.hyps(2,3)] show ?case .
next
  case (by_copy_assign st this rhs alloc l st')
  from by_copy_assign.IH obtain ass where "wf st ass" ..
  from wf_step_copy_assign[OF this by_copy_assign.hyps(2,3,4)] show ?case .
next
  case (by_swap st this other st')
  from by_swap.IH obtain ass where "wf st ass" ..
  from wf_step_swap[OF this by_swap.hyps(2)] show ?case .
next
  case (by_swap_free st lhs rhs st')
  from by_swap_free.IH obtain ass where "wf st ass" ..
  from wf_step_swap[OF this by_swap_free.hyps(2)[unfolded swap_free_def]] show ?case .
next
  case (by_PushFront st alloc this val st')
  from by_PushFront.IH obtain ass where "wf st ass" ..
  from wf_step_PushFront[OF this by_PushFront.hyps(2)] show ?case .
next
  case (by_InsertAfter st this k pos alloc val it st')
  from by_InsertAfter.IH obtain ass where "wf st ass" ..
  from wf_step_InsertAfter[OF this by_InsertAfter.hyps(2,3)] show ?case .
next
  case (by_PopFront st this st')
  from by_PopFront.IH obtain ass where "wf st ass" ..
  from wf_step_PopFront[OF this by_PopFront.hyps(2)] show ?case .
next
  case (by_EraseAfter st this k pos it st')
  from by_EraseAfter.IH obtain ass where "wf st ass" ..
  from wf_step_EraseAfter[OF this by_EraseAfter.hyps(2,3)] show ?case .
next
  case (by_Clear st this st')
  from by_Clear.IH obtain ass where "wf st ass" ..
  from wf_step_Clear[OF this by_Clear.hyps(2)] show ?case .
qed

lemma three_store_made:
  "ctor_initializer_list (first_free [1, 2, 3]) \<lparr>lists = [], nodes = Map.empty\<rparr> [10, 20, 30]
     = Some (Inr (0, three_store))"
  by (simp add: run_defs three_store_def)

lemma nan_store_made:
  "ctor_initializer_list (first_free [1]) \<lparr>lists = [], nodes = Map.empty\<rparr> [NaN]
     = Some (Inr (0, nan_store))"
  by (simp add: run_defs nan_store_def)


lemma InsertAfter_served:
  "serves alloc (nodes st) \<Longrightarrow> InsertAfter alloc st this pos v \<noteq> Inl (bad_alloc s)"
  by (auto simp: InsertAfter_def new_Node_def serves_def split: option.splits)

lemma InsertAfter_refused:
  "get_next st (m_node pos) \<noteq> None \<Longrightarrow> \<not> serves alloc (nodes st) \<Longrightarrow>
   InsertAfter alloc st this pos v = Inl (bad_alloc st)"
  by (auto simp: InsertAfter_def new_Node_def serves_def split: option.splits)


section \<open>The specification's claims\<close>

text \<open>
  C5. For a list \<open>this\<close> and a position \<open>pos\<close> that refers to a live node (a node of
  the list or its sentinel, as \<open>before_begin()\<close> gives it; not \<open>end()\<close>, whose pointer is
  null): \<open>InsertAfter(pos, v)\<close> either fails with \<open>std::bad_alloc\<close>, or it succeeds and
  \<open>EraseAfter(pos)\<close> then restores the store, and with it the list's element sequence
  and size, exactly; \<open>EraseAfter\<close> returns the iterator to the old successor of \<open>pos\<close>.
\<close>

theorem InsertAfter_EraseAfter_roundtrip:
  assumes "this < length (lists st)" and "get_next st (m_node pos) = Some nxt"
  shows "InsertAfter alloc st this pos v = Inl (bad_alloc st) \<or>
         (\<exists>it st1 st2. InsertAfter alloc st this pos v = Inr (it, st1)
              \<and> EraseAfter st1 this pos = Inr (BasicIterator nxt, st2)
              \<and> st2 = st \<and> iterate st2 this = iterate st this
              \<and> GetSize st2 this = GetSize st this)"
  using insert_erase_restores[OF assms, of alloc v] by auto

theorem InsertAfter_EraseAfter_roundtrip_witness:
  "(0 < length (lists ex_store)
    \<and> get_next ex_store (m_node (BasicIterator (Some (Cell 1)))) = Some (Some (Cell 2)))
   \<and> (\<exists>it st1. InsertAfter (first_free [7]) ex_store 0 (BasicIterator (Some (Cell 1))) 15 = Inr (it, st1)
          \<and> EraseAfter st1 0 (BasicIterator (Some (Cell 1))) = Inr (BasicIterator (Some (Cell 2)), ex_store)
          \<and> iterate ex_store 0 = Some (Inr [10, 20]))"
proof -
  have h1: "0 < length (lists ex_store)" by (simp add: ex_store_def)
  have h2: "get_next ex_store (m_node (BasicIterator (Some (Cell 1)))) = Some (Some (Cell 2))"
    by (simp add: ex_store_def get_next_def)
  have ok: "InsertAfter (first_free [7]) ex_store 0 (BasicIterator (Some (Cell 1))) 15
              \<noteq> Inl (bad_alloc ex_store)"
    by (simp add: InsertAfter_def new_Node_def first_free_def get_next_def set_next_def
        inc_size_def get_size_def set_size_def ex_store_def)
  have it: "iterate ex_store 0 = Some (Inr [10, 20])"
    by (simp add: iterate_def begin_it_def get_next_def collect.simps it_ne_def end_it_def
        it_deref_def get_value_def it_pre_inc_def ex_store_def)
  from InsertAfter_EraseAfter_roundtrip[OF h1 h2, of "first_free [7]" 15] ok it h1 h2
  show ?thesis by auto
qed

text \<open>
  C8. For two live list objects \<open>A\<close> and \<open>B\<close>, \<open>A.swap(B)\<close> and the free function
  \<open>swap(A, B)\<close> always succeed; the heap of nodes is left as it is (nothing is allocated
  or freed) and only the two list objects are exchanged: \<open>A\<close> then yields the elements
  and the size that \<open>B\<close> had, and \<open>B\<close> those of \<open>A\<close>. A second swap restores the store.
\<close>

theorem swap_exchanges:
  assumes "A < length (lists st)" "B < length (lists st)"
  shows "\<exists>st'. swap st A B = Inr ((), st') \<and> swap_free st A B = Inr ((), st')
           \<and> iterate st' A = iterate st B \<and> iterate st' B = iterate st A
           \<and> GetSize st' A = GetSize st B \<and> GetSize st' B = GetSize st A
           \<and> nodes st' = nodes st
           \<and> lists st' = (lists st)[A := lists st ! B, B := lists st ! A]
           \<and> swap st' A B = Inr ((), st) \<and> swap_free st' A B = Inr ((), st)"
proof -
  define st' where "st' = st\<lparr>lists := (lists st)[A := lists st ! B, B := lists st ! A]\<rparr>"
  have ls: "lists st' = (lists st)[A := lists st ! B, B := lists st ! A]"
    and ns: "nodes st' = nodes st"
    by (simp_all add: st'_def)
  have 1: "swap st A B = Inr ((), st')"
    unfolding st'_def by (rule swap_valid[OF assms])
  have len: "A < length (lists st')" "B < length (lists st')" using assms by (simp_all add: ls)
  have A: "lists st' ! A = lists st ! B" using assms by (simp add: ls nth_list_update)
  have B: "lists st' ! B = lists st ! A" using assms by (simp add: ls nth_list_update)
  have restored: "(lists st')[A := lists st' ! B, B := lists st' ! A] = lists st"
    unfolding A B using assms by (intro nth_equalityI) (auto simp: ls nth_list_update)
  have "st'\<lparr>lists := lists st\<rparr> = st" by (simp add: st'_def)
  then have 2: "swap st' A B = Inr ((), st)"
    by (simp add: swap_valid[OF len] restored)
  have 3: "iterate st' A = iterate st B"
    by (rule iterate_swap) (use assms A len ns in simp_all)
  have 4: "iterate st' B = iterate st A"
    by (rule iterate_swap) (use assms B len ns in simp_all)
  have 5: "GetSize st' A = GetSize st B" "GetSize st' B = GetSize st A"
    using assms A B len by (simp_all add: GetSize_def get_size_def)
  show ?thesis
    using 1 2 3 4 5 ls ns by (intro exI[of _ st']) (simp add: swap_free_def)
qed

theorem swap_exchanges_witness:
  "(0 < length (lists ex_store) \<and> 1 < length (lists ex_store))
   \<and> (\<exists>st'. swap ex_store 0 1 = Inr ((), st')
         \<and> iterate st' 0 = Some (Inr [30]) \<and> iterate st' 1 = Some (Inr [10, 20])
         \<and> GetSize st' 0 = Some 1 \<and> GetSize st' 1 = Some 2
         \<and> swap st' 0 1 = Inr ((), ex_store))"
proof -
  have h1: "0 < length (lists ex_store)" and h2: "1 < length (lists ex_store)"
    by (simp_all add: ex_store_def)
  have it: "iterate ex_store 0 = Some (Inr [10, 20])" "iterate ex_store 1 = Some (Inr [30])"
    by (simp_all add: iterate_def begin_it_def get_next_def collect.simps it_ne_def end_it_def
        it_deref_def get_value_def it_pre_inc_def ex_store_def)
  have sz: "GetSize ex_store 0 = Some 2" "GetSize ex_store 1 = Some 1"
    by (simp_all add: GetSize_def get_size_def ex_store_def)
  from swap_exchanges[OF h1 h2] it sz h1 h2 show ?thesis by auto
qed

text \<open>
  C9. \<open>operator->\<close> of an iterator that refers to no node (a default-constructed
  iterator, \<open>end()\<close>) returns the null pointer; of an iterator that refers to a node it
  returns the address of that node's value, so reading through the pointer gives what
  \<open>operator*\<close> gives. On an iterator that refers to no node, \<open>operator*\<close>, \<open>operator++()\<close>
  and \<open>operator++(int)\<close> are undefined (\<open>None\<close>) instead.
\<close>

theorem it_arrow_null_or_value:
  "it_arrow (BasicIterator None) = None \<and> it_arrow default_it = None \<and> it_arrow end_it = None
   \<and> it_arrow (BasicIterator (Some p)) = Some (ValueOf p)
   \<and> load_value st (it_arrow (BasicIterator (Some p))) = it_deref st (BasicIterator (Some p))
   \<and> load_value st (it_arrow (BasicIterator (Some (Cell a)))) = map_option value (nodes st a)
   \<and> it_deref st (BasicIterator None) = None
   \<and> it_pre_inc st (BasicIterator None) = None
   \<and> it_post_inc st (BasicIterator None) = None"
  by (simp add: it_arrow_def default_it_def end_it_def load_value_def it_deref_def get_value_def
      it_pre_inc_def it_post_inc_def get_next_def)

text \<open>
  C10. Swapping a live list object with itself, by the member function or by the
  free function, succeeds and leaves the store, and so the list's elements and size,
  unchanged.
\<close>

theorem self_swap_is_noop:
  assumes "A < length (lists st)"
  shows "swap st A A = Inr ((), st) \<and> swap_free st A A = Inr ((), st)"
  using swap_self[OF assms] by (simp add: swap_free_def)

theorem self_swap_is_noop_witness:
  "0 < length (lists ex_store)
   \<and> swap ex_store 0 0 = Inr ((), ex_store) \<and> swap_free ex_store 0 0 = Inr ((), ex_store)"
proof -
  have h: "0 < length (lists ex_store)" by (simp add: ex_store_def)
  from self_swap_is_noop[OF h] h show ?thesis by simp
qed

text \<open>
  C3. Let \<open>L1\<close> and \<open>L2\<close> be lists whose traversals yield \<open>xs\<close> and \<open>ys\<close>, and let
  \<open>eq\<close> be the \<open>operator==\<close> of the element type. Then \<open>L1 == L2\<close> returns true exactly
  when \<open>xs\<close> and \<open>ys\<close> have the same length and \<open>eq\<close> holds at every index, and
  \<open>L1 != L2\<close> returns the negation. \<open>L1 == L1\<close> returns whether every element of \<open>L1\<close>
  is \<open>eq\<close> to itself: it is true for the lists whose elements compare equal to
  themselves, and for no others. With equality itself as \<open>eq\<close>, \<open>L1 == L1\<close> is true and
  \<open>L1 == L2\<close> says whether the two sequences are the same.
\<close>

theorem operator_eq_elementwise:
  assumes "iterate st L1 = Some (Inr xs)" "iterate st L2 = Some (Inr ys)"
  shows "operator_eq eq st L1 L2
           = Some (Inr (length xs = length ys \<and> (\<forall>i<length xs. eq (xs ! i) (ys ! i))))
       \<and> operator_ne eq st L1 L2
           = Some (Inr (\<not> (length xs = length ys \<and> (\<forall>i<length xs. eq (xs ! i) (ys ! i)))))
       \<and> operator_eq eq st L1 L1 = Some (Inr (\<forall>x\<in>set xs. eq x x))
       \<and> ((\<forall>x\<in>set xs. eq x x) \<longrightarrow> operator_eq eq st L1 L1 = Some (Inr True))
       \<and> operator_eq (=) st L1 L1 = Some (Inr True)
       \<and> operator_eq (=) st L1 L2 = Some (Inr (xs = ys))
       \<and> operator_ne (=) st L1 L2 = Some (Inr (xs \<noteq> ys))"
proof -
  have 1: "operator_eq eq st L1 L2 = Some (Inr (list_all2 eq xs ys))" for eq
    by (rule operator_eq_chain[OF assms])
  have 2: "operator_eq eq st L1 L1 = Some (Inr (list_all2 eq xs xs))" for eq
    by (rule operator_eq_chain[OF assms(1) assms(1)])
  have 3: "list_all2 eq xs xs = (\<forall>x\<in>set xs. eq x x)"
    by (simp add: list_all2_conv_all_nth all_set_conv_all_nth)
  have 4: "list_all2 eq xs ys = (length xs = length ys \<and> (\<forall>i<length xs. eq (xs ! i) (ys ! i)))"
    by (rule list_all2_conv_all_nth)
  have 5: "list_all2 (=) xs ys = (xs = ys)" "list_all2 (=) xs xs"
    by (simp_all add: list_all2_eq[symmetric])
  have a: "operator_eq eq st L1 L2
           = Some (Inr (length xs = length ys \<and> (\<forall>i<length xs. eq (xs ! i) (ys ! i))))"
    using 1[of eq] by (simp only: 4)
  have b: "operator_ne eq st L1 L2
           = Some (Inr (\<not> (length xs = length ys \<and> (\<forall>i<length xs. eq (xs ! i) (ys ! i)))))"
    unfolding operator_ne_def a by (simp add: negate_def)
  have c0: "operator_eq eq st L1 L1 = Some (Inr (\<forall>x\<in>set xs. eq x x))"
    by (simp only: 2 3)
  have c: "(\<forall>x\<in>set xs. eq x x) \<longrightarrow> operator_eq eq st L1 L1 = Some (Inr True)"
    by (simp add: 2 3)
  have d: "operator_eq (=) st L1 L1 = Some (Inr True)"
    by (simp add: 2 5)
  have e: "operator_eq (=) st L1 L2 = Some (Inr (xs = ys))"
    by (simp add: 1 5)
  have f: "operator_ne (=) st L1 L2 = Some (Inr (xs \<noteq> ys))"
    unfolding operator_ne_def e by (simp add: negate_def)
  show ?thesis by (rule conjI[OF a conjI[OF b conjI[OF c0 conjI[OF c conjI[OF d conjI[OF e f]]]]]])
qed

theorem operator_eq_elementwise_witness:
  "(iterate ex_store 0 = Some (Inr [10, 20]) \<and> iterate ex_store 1 = Some (Inr [30]))
   \<and> operator_eq (=) ex_store 0 1 = Some (Inr False)
   \<and> operator_ne (=) ex_store 0 1 = Some (Inr True)
   \<and> operator_eq (=) ex_store 0 0 = Some (Inr True)
   \<and> operator_eq (\<lambda>x y. x mod 10 = y mod 10) ex_store 1 1 = Some (Inr True)"
proof -
  have it: "iterate ex_store 0 = Some (Inr [10, 20])" "iterate ex_store 1 = Some (Inr [30])"
    by (simp_all add: iterate_def begin_it_def get_next_def collect.simps it_ne_def end_it_def
        it_deref_def get_value_def it_pre_inc_def ex_store_def)
  from operator_eq_elementwise[OF it, of "(=)"]
       operator_eq_elementwise[OF it(2) it(2), of "\<lambda>x y. x mod 10 = y mod 10"] it
  show ?thesis by simp
qed

text \<open>
  C3 as the specification words it asks for \<open>L == L\<close> of every list \<open>L\<close>. The list
  \<open>{NaN}\<close> of doubles, as the constructor makes it, is not equal to itself:
  \<open>std::equal\<close> compares its one element with itself, and a NaN is unequal to itself.
\<close>

theorem operator_eq_not_reflexive:
  "iterate nan_store 0 = Some (Inr [NaN])
   \<and> operator_eq ieee_eq nan_store 0 0 = Some (Inr False)
   \<and> operator_ne ieee_eq nan_store 0 0 = Some (Inr True)"
proof -
  have it: "iterate nan_store 0 = Some (Inr [NaN])"
    by (simp add: iterate_def begin_it_def get_next_def collect.simps it_ne_def end_it_def
        it_deref_def get_value_def it_pre_inc_def nan_store_def)
  have e: "operator_eq ieee_eq nan_store 0 0 = Some (Inr False)"
    using operator_eq_chain[OF it it, of ieee_eq] by (simp add: ieee_eq_def)
  have n: "operator_ne ieee_eq nan_store 0 0 = Some (Inr True)"
    unfolding operator_ne_def e by (simp add: negate_def)
  show ?thesis by (rule conjI[OF it conjI[OF e n]])
qed

text \<open>
  C4. Let \<open>lt\<close>, the \<open>operator<\<close> of the element type, be a strict total order, and let
  the traversals of the lists \<open>A\<close>, \<open>B\<close>, \<open>C\<close> yield \<open>xs\<close>, \<open>ys\<close>, \<open>zs\<close>. Then
  \<open>A < B\<close> returns whether \<open>xs\<close> is lexicographically less than \<open>ys\<close>; \<open>A > B\<close> is
  \<open>B < A\<close>, \<open>A <= B\<close> is the negation of \<open>B < A\<close> and \<open>A >= B\<close> the negation of
  \<open>A < B\<close>; and \<open><\<close> on lists is irreflexive, asymmetric, transitive and total, with
  \<open><=\<close> antisymmetric.
\<close>

theorem operator_lt_lexicographic:
  assumes irrefl: "\<forall>x. \<not> lt x x"
    and trans: "\<forall>x y z. lt x y \<longrightarrow> lt y z \<longrightarrow> lt x z"
    and total: "\<forall>x y. x \<noteq> y \<longrightarrow> lt x y \<or> lt y x"
    and A: "iterate st A = Some (Inr xs)"
    and B: "iterate st B = Some (Inr ys)"
    and C: "iterate st C = Some (Inr zs)"
  shows "operator_lt lt st A B = Some (Inr ((xs, ys) \<in> lexord {(x, y). lt x y}))
       \<and> operator_gt lt st A B = Some (Inr ((ys, xs) \<in> lexord {(x, y). lt x y}))
       \<and> operator_le lt st A B = Some (Inr ((ys, xs) \<notin> lexord {(x, y). lt x y}))
       \<and> operator_ge lt st A B = Some (Inr ((xs, ys) \<notin> lexord {(x, y). lt x y}))
       \<and> operator_gt lt st A B = operator_lt lt st B A
       \<and> operator_le lt st A B = negate (operator_lt lt st B A)
       \<and> operator_ge lt st A B = negate (operator_lt lt st A B)
       \<and> operator_lt lt st A A = Some (Inr False)
       \<and> (operator_lt lt st A B = Some (Inr True) \<longrightarrow> operator_lt lt st B A = Some (Inr False))
       \<and> (operator_lt lt st A B = Some (Inr True) \<and> operator_lt lt st B C = Some (Inr True)
            \<longrightarrow> operator_lt lt st A C = Some (Inr True))
       \<and> (operator_le lt st A B = Some (Inr True) \<and> operator_le lt st B A = Some (Inr True)
            \<longrightarrow> xs = ys)
       \<and> (operator_lt lt st A B = Some (Inr True) \<or> xs = ys
            \<or> operator_lt lt st B A = Some (Inr True))"
proof -
  let ?r = "{(x, y). lt x y}"
  have i: "\<And>x. \<not> lt x x" and t: "\<And>x y. x \<noteq> y \<Longrightarrow> lt x y \<or> lt y x"
    using irrefl total by blast+
  note L = operator_lt_chain[where lt = lt, OF irrefl total]
  have tr: "trans ?r" using trans by (auto simp: trans_def)
  have ir: "(xs, xs) \<notin> lexord ?r" for xs
    by (rule lexord_irreflexive) (use i in auto)
  have lin: "(xs, ys) \<in> lexord ?r \<or> xs = ys \<or> (ys, xs) \<in> lexord ?r"
    by (rule lexord_linear) (use t in auto)
  have asym: "(xs, ys) \<in> lexord ?r \<Longrightarrow> (ys, xs) \<notin> lexord ?r"
    using lexord_trans[OF _ _ tr, of xs ys xs] ir by blast
  have trans3: "(xs, ys) \<in> lexord ?r \<Longrightarrow> (ys, zs) \<in> lexord ?r \<Longrightarrow> (xs, zs) \<in> lexord ?r"
    using lexord_trans[OF _ _ tr] by blast
  show ?thesis
    using lin asym trans3 ir
    by (simp add: L[OF A B] L[OF B A] L[OF A A] L[OF A C] L[OF B C]
        operator_gt_def operator_le_def operator_ge_def negate_def) blast
qed

theorem operator_lt_lexicographic_witness:
  "(iterate ex_store 0 = Some (Inr [10, 20]) \<and> iterate ex_store 1 = Some (Inr [30]))
   \<and> operator_lt (<) ex_store 0 1 = Some (Inr True)
   \<and> operator_lt (<) ex_store 1 0 = Some (Inr False)
   \<and> operator_le (<) ex_store 0 1 = Some (Inr True)
   \<and> operator_gt (<) ex_store 0 1 = Some (Inr False)
   \<and> operator_ge (<) ex_store 0 1 = Some (Inr False)
   \<and> operator_lt (<) ex_store 0 0 = Some (Inr False)"
proof -
  have o: "\<forall>x::int. \<not> x < x" "\<forall>x y z :: int. x < y \<longrightarrow> y < z \<longrightarrow> x < z"
    "\<forall>x y :: int. x \<noteq> y \<longrightarrow> x < y \<or> y < x"
    by auto
  have it: "iterate ex_store 0 = Some (Inr [10, 20])" "iterate ex_store 1 = Some (Inr [30])"
    by (simp_all add: iterate_def begin_it_def get_next_def collect.simps it_ne_def end_it_def
        it_deref_def get_value_def it_pre_inc_def ex_store_def)
  from operator_lt_lexicographic[of "(<)", OF o it it(1)] it
  show ?thesis by simp
qed



text \<open>
  C6. Let the traversal of the list \<open>this\<close> yield \<open>xs\<close>, and let \<open>pos\<close> be the iterator reached
  from \<open>before_begin()\<close> by \<open>k \<le> length xs\<close> increments (position 0 is \<open>before_begin()\<close>,
  position \<open>k\<close> the \<open>k\<close>-th node; \<open>end()\<close> would be position \<open>length xs + 1\<close>). Then
  \<open>InsertAfter(pos, v)\<close> either throws \<open>std::bad_alloc\<close> with the store unchanged, or it
  returns an iterator \<open>it\<close> and a store in which the list yields \<open>xs\<close> with \<open>v\<close> inserted
  at index \<open>k\<close>, \<open>it\<close> refers to a node holding \<open>v\<close> and is the successor of \<open>pos\<close>, and
  \<open>size_\<close> has grown by one (without wrapping around, when it counted the nodes before).
  Which of the two happens is up to \<open>new\<close> alone: the node is inserted whenever the
  allocator serves the heap of the store, and the exception is thrown, before anything
  is written, whenever it does not.
\<close>

theorem InsertAfter_inserts:
  assumes "iterate st this = Some (Inr xs)" and "k \<le> length xs"
    and "advance st (before_begin this) k = Some pos"
    and "GetSize st this = Some s"
  shows "(InsertAfter alloc st this pos v = Inl (bad_alloc st)
          \<or> (\<exists>it st'. InsertAfter alloc st this pos v = Inr (it, st')
                \<and> iterate st' this = Some (Inr (take k xs @ v # drop k xs))
                \<and> GetSize st' this = Some (s + 1)
                \<and> it_deref st' it = Some v
                \<and> it_pre_inc st' pos = Some it
                \<and> advance st' (before_begin this) (Suc k) = Some it
                \<and> (unat s = length xs \<and> nodes st 0 = None \<longrightarrow> unat (s + 1) = length xs + 1)))
       \<and> (serves alloc (nodes st) \<longrightarrow>
            (\<exists>it st'. InsertAfter alloc st this pos v = Inr (it, st')
                \<and> iterate st' this = Some (Inr (take k xs @ v # drop k xs))
                \<and> GetSize st' this = Some (s + 1)
                \<and> it_deref st' it = Some v
                \<and> it_pre_inc st' pos = Some it
                \<and> advance st' (before_begin this) (Suc k) = Some it
                \<and> (unat s = length xs \<and> nodes st 0 = None \<longrightarrow> unat (s + 1) = length xs + 1)))
       \<and> (\<not> serves alloc (nodes st) \<longrightarrow> InsertAfter alloc st this pos v = Inl (bad_alloc st))"
proof -
  let ?inserted = "\<exists>it st'. InsertAfter alloc st this pos v = Inr (it, st')
                \<and> iterate st' this = Some (Inr (take k xs @ v # drop k xs))
                \<and> GetSize st' this = Some (s + 1)
                \<and> it_deref st' it = Some v
                \<and> it_pre_inc st' pos = Some it
                \<and> advance st' (before_begin this) (Suc k) = Some it
                \<and> (unat s = length xs \<and> nodes st 0 = None \<longrightarrow> unat (s + 1) = length xs + 1)"
  from assms(1) obtain as where l: "this < length (lists st)"
    and c: "chain (nodes st) (head_next_node (lists st ! this)) as"
    and v: "vals (nodes st) as = xs"
    unfolding iterate_iff by blast
  have len: "length xs = length as" using v length_vals[of "nodes st" as] by simp
  with assms(2) have k: "k \<le> length as" by simp
  from position_advance[OF l c k] assms(3) have pos: "pos = position this as k" by simp
  from assms(4) l have s: "m_size (lists st ! this) = s" by (simp add: GetSize_def get_size_def)
  have valid: "get_next st (m_node pos) \<noteq> None"
  proof (cases k)
    case 0
    with l show ?thesis by (simp add: pos position_def before_begin_def get_next_def)
  next
    case (Suc i)
    with k chain_in_dom[OF c, of "as ! i"] show ?thesis
      by (auto simp: pos position_def get_next_def)
  qed
  have 1: "InsertAfter alloc st this pos v = Inl (bad_alloc st) \<or> ?inserted"
  proof (cases rule: InsertAfter_chain[OF l c k, of alloc v])
    case 1
    then show ?thesis by (simp add: pos)
  next
    case (2 a st')
    let ?as' = "take k as @ a # drop k as"
    let ?it = "BasicIterator (Some (Cell a))"
    have l': "this < length (lists st')" using l 2(6) by simp
    have it: "iterate st' this = Some (Inr (take k xs @ v # drop k xs))"
      unfolding iterate_iff using l' 2(4,5) v by blast
    have sz: "GetSize st' this = Some (s + 1)"
      using l' 2(7) s by (simp add: GetSize_def get_size_def)
    have dr: "it_deref st' ?it = Some v" using 2(11) by (simp add: it_deref_def)
    have inc: "it_pre_inc st' pos = Some ?it" using 2(10) by (simp add: it_pre_inc_def pos)
    have "?as' ! k = a" using k by (simp add: nth_append)
    with position_advance[OF l' 2(4), of "Suc k"] k
    have adv: "advance st' (before_begin this) (Suc k) = Some ?it"
      by (simp add: position_def)
    have ov: "unat (s + 1) = length xs + 1" if "unat s = length xs" "nodes st 0 = None"
    proof -
      have "0 \<notin> set as" using chain_in_dom[OF c, of 0] that(2) by auto
      then have "0 \<notin> set ?as'" using 2(3) by (auto dest: in_set_takeD in_set_dropD)
      with chain_distinct[OF 2(4)] have "length ?as' < 2 ^ 64" by (rule length_addrs_bound)
      then have "Suc (length xs) < 2 ^ 64" using k len by simp
      from unat_inc[OF that(1) this] show ?thesis by simp
    qed
    show ?thesis
      using 2(1) it sz dr inc adv ov
      by (intro disjI2 exI[of _ ?it] exI[of _ st']) (simp add: pos)
  qed
  have 2: "serves alloc (nodes st) \<longrightarrow> ?inserted"
  proof
    assume "serves alloc (nodes st)"
    then have n: "InsertAfter alloc st this pos v \<noteq> Inl (bad_alloc st)" by (rule InsertAfter_served)
    from 1 show ?inserted
    proof
      assume "InsertAfter alloc st this pos v = Inl (bad_alloc st)"
      with n show ?inserted by (rule notE)
    qed
  qed
  have 3: "\<not> serves alloc (nodes st) \<longrightarrow> InsertAfter alloc st this pos v = Inl (bad_alloc st)"
    using InsertAfter_refused[OF valid] by (rule impI)
  show ?thesis by (rule conjI[OF 1 conjI[OF 2 3]])
qed

theorem InsertAfter_inserts_witness:
  "(iterate ex_store 0 = Some (Inr [10, 20]) \<and> (1::nat) \<le> length [10, 20 :: int]
     \<and> advance ex_store (before_begin 0) 1 = Some (BasicIterator (Some (Cell 1)))
     \<and> GetSize ex_store 0 = Some 2)
   \<and> (\<exists>it st'. InsertAfter (first_free [7]) ex_store 0 (BasicIterator (Some (Cell 1))) 15 = Inr (it, st')
         \<and> iterate st' 0 = Some (Inr [10, 15, 20]) \<and> GetSize st' 0 = Some 3
         \<and> it_deref st' it = Some 15)
   \<and> InsertAfter (\<lambda>h. None) ex_store 0 (BasicIterator (Some (Cell 1))) 15 = Inl (bad_alloc ex_store)"
proof -
  have h1: "iterate ex_store 0 = Some (Inr [10, 20])"
    by (simp add: iterate_def begin_it_def get_next_def collect.simps it_ne_def end_it_def
        it_deref_def get_value_def it_pre_inc_def ex_store_def)
  have h2: "(1::nat) \<le> length [10, 20 :: int]" by simp
  have h3: "advance ex_store (before_begin 0) 1 = Some (BasicIterator (Some (Cell 1)))"
    by (simp add: before_begin_def it_pre_inc_def get_next_def ex_store_def)
  have h4: "GetSize ex_store 0 = Some 2" by (simp add: GetSize_def get_size_def ex_store_def)
  have served: "serves (first_free [7]) (nodes ex_store)"
    by (simp add: serves_def first_free_def ex_store_def)
  have refused: "\<not> serves (\<lambda>h. None) (nodes ex_store)"
    by (simp add: serves_def)
  note t = InsertAfter_inserts[OF h1 h2 h3 h4, of _ 15]
  have "\<exists>it st'. InsertAfter (first_free [7]) ex_store 0 (BasicIterator (Some (Cell 1))) 15 = Inr (it, st')
                \<and> iterate st' 0 = Some (Inr (take 1 [10, 20] @ 15 # drop 1 [10, 20]))
                \<and> GetSize st' 0 = Some (2 + 1)
                \<and> it_deref st' it = Some 15
                \<and> it_pre_inc st' (BasicIterator (Some (Cell 1))) = Some it
                \<and> advance st' (before_begin 0) (Suc 1) = Some it
                \<and> (unat (2 :: 64 word) = length [10, 20 :: int] \<and> nodes ex_store 0 = None
                      \<longrightarrow> unat (2 + 1 :: 64 word) = length [10, 20 :: int] + 1)"
    by (rule mp[OF t[of "first_free [7]", THEN conjunct2, THEN conjunct1] served])
  then obtain it st' where "InsertAfter (first_free [7]) ex_store 0 (BasicIterator (Some (Cell 1))) 15 = Inr (it, st')"
    "iterate st' 0 = Some (Inr (take 1 [10, 20] @ 15 # drop 1 [10, 20]))"
    "GetSize st' 0 = Some (2 + 1)" "it_deref st' it = Some 15"
    by (elim exE conjE)
  then have a: "\<exists>it st'. InsertAfter (first_free [7]) ex_store 0 (BasicIterator (Some (Cell 1))) 15 = Inr (it, st')
         \<and> iterate st' 0 = Some (Inr [10, 15, 20]) \<and> GetSize st' 0 = Some 3
         \<and> it_deref st' it = Some 15"
    by (intro exI[of _ it] exI[of _ st']) simp
  have b: "InsertAfter (\<lambda>h. None) ex_store 0 (BasicIterator (Some (Cell 1))) 15 = Inl (bad_alloc ex_store)"
    by (rule mp[OF t[of "\<lambda>h. None", THEN conjunct2, THEN conjunct2] refused])
  show ?thesis by (rule conjI[OF conjI[OF h1 conjI[OF h2 conjI[OF h3 h4]]] conjI[OF a b]])
qed



text \<open>
  C2. In every store reached by the public operations (called on live lists, at
  positions of the list they are called on, and not failing), every list \<open>l\<close> has a
  chain \<open>as\<close> from \<open>head_.next_node\<close> to null: \<open>as\<close> lists, without repetition, exactly
  the nodes reachable from \<open>head_.next_node\<close>; their number is \<open>size_\<close>; no node reaches
  itself; and the last node's \<open>next_node\<close> is null.
\<close>

theorem reachable_size_and_chain:
  assumes "reachable st" "l < length (lists st)"
  shows "\<exists>as. chain (nodes st) (head_next_node (lists st ! l)) as
            \<and> set as = reachable_nodes st l \<and> distinct as
            \<and> finite (reachable_nodes st l)
            \<and> unat (m_size (lists st ! l)) = card (reachable_nodes st l)
            \<and> GetSize st l = Some (of_nat (card (reachable_nodes st l)))
            \<and> (\<forall>a\<in>reachable_nodes st l. (a, a) \<notin> (node_succ (nodes st))\<^sup>+)
            \<and> (as \<noteq> [] \<longrightarrow> (\<exists>n. nodes st (last as) = Some n \<and> next_node n = None))"
proof -
  from reachable_wf[OF assms(1)] obtain ass where w: "wf st ass" ..
  let ?as = "ass ! l"
  note c = wfD(2)[OF w assms(2)]
  have r: "set ?as = reachable_nodes st l"
    unfolding reachable_nodes_def by (rule reach_chain[OF c, symmetric])
  have d: "distinct ?as" by (rule chain_distinct[OF c])
  have n: "card (reachable_nodes st l) = length ?as"
    unfolding r[symmetric] by (rule distinct_card[OF d])
  have f: "finite (reachable_nodes st l)" unfolding r[symmetric] by simp
  have s: "unat (m_size (lists st ! l)) = card (reachable_nodes st l)"
    using wfD(3)[OF w assms(2)] n by simp
  have g: "GetSize st l = Some (of_nat (card (reachable_nodes st l)))"
    using wf_GetSize[OF w assms(2)] n by simp
  have a: "\<forall>a\<in>reachable_nodes st l. (a, a) \<notin> (node_succ (nodes st))\<^sup>+"
    unfolding r[symmetric] using chain_no_cycle[OF c] by blast
  have e: "?as \<noteq> [] \<longrightarrow> (\<exists>n. nodes st (last ?as) = Some n \<and> next_node n = None)"
    using chain_last_null[OF c] by blast
  from c r d f s g a e show ?thesis by (intro exI[of _ ?as] conjI)
qed

theorem reachable_size_and_chain_witness:
  "(reachable three_store \<and> 0 < length (lists three_store))
   \<and> card (reachable_nodes three_store 0) = 3
   \<and> GetSize three_store 0 = Some 3
   \<and> chain (nodes three_store) (head_next_node (lists three_store ! 0)) [1, 2, 3]
   \<and> (\<exists>n. nodes three_store 3 = Some n \<and> next_node n = None)"
proof -
  have h1: "reachable three_store"
    by (rule reachable.by_ctor_initializer_list[OF reachable.start three_store_made])
  have h2: "0 < length (lists three_store)" by (simp add: three_store_def)
  have c: "chain (nodes three_store) (head_next_node (lists three_store ! 0)) [1, 2, 3]"
    by (simp add: three_store_def)
  from reachable_size_and_chain[OF h1 h2] obtain as where as:
    "chain (nodes three_store) (head_next_node (lists three_store ! 0)) as"
    "unat (m_size (lists three_store ! 0)) = card (reachable_nodes three_store 0)"
    "as \<noteq> [] \<longrightarrow> (\<exists>n. nodes three_store (last as) = Some n \<and> next_node n = None)"
    by (elim exE conjE)
  from chain_unique[OF as(1) c] have "as = [1, 2, 3]" .
  with as(3) have l: "\<exists>n. nodes three_store 3 = Some n \<and> next_node n = None" by simp
  from as(2) have n: "card (reachable_nodes three_store 0) = 3" by (simp add: three_store_def)
  have g: "GetSize three_store 0 = Some 3" by (simp add: GetSize_def get_size_def three_store_def)
  show ?thesis by (rule conjI[OF conjI[OF h1 h2] conjI[OF n conjI[OF g conjI[OF c l]]]])
qed

end
